theory Spec2Isabelle
  imports Main
begin

unbundle bit_operations_syntax

section \<open>Values of the host language\<close>

text \<open>
  The codec is TypeScript over \<open>Int32Array\<close>. Every \<open>throw\<close> of the source, and the
  \<open>RangeError\<close>/\<open>TypeError\<close> the runtime raises by itself, is a constructor of \<open>error\<close>.
\<close>

datatype error =
    IllegalArgumentException
  | ArithmeticException
  | DivideByZero
  | NoErrorCorrectionBytes
  | NoDataBytes
  | RemainderWasZero
  | DivisionFailedToReduce
  | SigmaTildeZero
  | DegreeMismatch
  | BadErrorLocation
  | RangeError
  | TypeError

text \<open>
  A typed array read outside its bounds does not raise: it yields \<open>undefined\<close>, and
  arithmetic on \<open>undefined\<close> yields \<open>NaN\<close>. Both behave alike everywhere the codec uses
  them (never \<open>=== 0\<close>, index nothing, become 0 under \<open>^\<close> and when stored into an
  \<open>Int32Array\<close>), so one constructor \<open>Undefined\<close> stands for both.
\<close>

datatype jsnum = Num int | Undefined

fun to_int32 :: "jsnum \<Rightarrow> int" where
  "to_int32 (Num i) = i"
| "to_int32 Undefined = 0"

fun js_add :: "jsnum \<Rightarrow> jsnum \<Rightarrow> jsnum" where
  "js_add (Num a) (Num b) = Num (a + b)"
| "js_add _ _ = Undefined"

fun js_sub :: "jsnum \<Rightarrow> jsnum \<Rightarrow> jsnum" where
  "js_sub (Num a) (Num b) = Num (a - b)"
| "js_sub _ _ = Undefined"

text \<open>The remainder operator \<open>%\<close> truncates: the result has the sign of the dividend.\<close>

fun js_rem :: "jsnum \<Rightarrow> jsnum \<Rightarrow> jsnum" where
  "js_rem (Num a) (Num b) = (if b = 0 then Undefined else Num (sgn a * (\<bar>a\<bar> mod \<bar>b\<bar>)))"
| "js_rem _ _ = Undefined"

text \<open>Reading \<open>xs[i]\<close> and writing \<open>xs[i] = v\<close> on a typed array; a write outside is ignored.\<close>

fun at :: "int list \<Rightarrow> jsnum \<Rightarrow> jsnum" where
  "at xs (Num i) = (if 0 \<le> i \<and> i < int (length xs) then Num (xs ! nat i) else Undefined)"
| "at xs Undefined = Undefined"

definition set_at :: "int list \<Rightarrow> int \<Rightarrow> int \<Rightarrow> int list" where
  "set_at xs i v = (if 0 \<le> i \<and> i < int (length xs) then xs[nat i := v] else xs)"

section \<open>Generic_GF: the field tables\<close>

record Generic_GF =
  primitive :: int
  size_GF :: int
  generator_base :: int
  exp_table :: "int list"
  log_table :: "int list"

text \<open>One round of the constructor's first loop: \<open>x *= 2; if (x >= size) { x ^= primitive; x &= size - 1 }\<close>.\<close>

definition next_x :: "int \<Rightarrow> int \<Rightarrow> int \<Rightarrow> int" where
  "next_x prim sz x = (let y = x * 2 in if y \<ge> sz then (y XOR prim) AND (sz - 1) else y)"

text \<open>The first loop stores \<open>x\<close> at index \<open>i\<close> for \<open>i = 0, 1, ..., size - 1\<close> in turn.\<close>

fun exp_entries :: "int \<Rightarrow> int \<Rightarrow> nat \<Rightarrow> int \<Rightarrow> int list" where
  "exp_entries prim sz 0 x = []"
| "exp_entries prim sz (Suc n) x = x # exp_entries prim sz n (next_x prim sz x)"

text \<open>The second loop: \<open>log_table[exp_table[i]] = i\<close> for \<open>i < size - 1\<close>, on a zeroed array.\<close>

definition log_entries :: "int \<Rightarrow> int list \<Rightarrow> int list" where
  "log_entries sz et =
     fold (\<lambda>i lt. set_at lt (et ! i) (int i)) [0..<nat (sz - 1)] (replicate (nat sz) 0)"

definition build_tables :: "int \<Rightarrow> int \<Rightarrow> int \<Rightarrow> Generic_GF" where
  "build_tables prim sz gb =
     (let et = exp_entries prim sz (nat sz) 1 in
      \<lparr>primitive = prim, size_GF = sz, generator_base = gb,
       exp_table = et, log_table = log_entries sz et\<rparr>)"

text \<open>\<open>new Int32Array(size)\<close> raises a RangeError for a negative size.\<close>

definition new_Generic_GF :: "int \<Rightarrow> int \<Rightarrow> int \<Rightarrow> error + Generic_GF" where
  "new_Generic_GF prim sz gb = (if sz < 0 then Inl RangeError else Inr (build_tables prim sz gb))"

definition GF_DATA_MATRIX_256 :: Generic_GF where
  "GF_DATA_MATRIX_256 = build_tables 0x012D 256 1"

definition GF_QR_CODE_256 :: Generic_GF where
  "GF_QR_CODE_256 = build_tables 0x011D 256 0"

definition add_or_subtract_GF :: "jsnum \<Rightarrow> jsnum \<Rightarrow> int" where
  "add_or_subtract_GF a b = to_int32 a XOR to_int32 b"

definition exp_GF :: "Generic_GF \<Rightarrow> jsnum \<Rightarrow> jsnum" where
  "exp_GF f a = at (exp_table f) a"

definition log_GF :: "Generic_GF \<Rightarrow> jsnum \<Rightarrow> error + jsnum" where
  "log_GF f a = (if a = Num 0 then Inl IllegalArgumentException else Inr (at (log_table f) a))"

definition inverse_GF :: "Generic_GF \<Rightarrow> jsnum \<Rightarrow> error + jsnum" where
  "inverse_GF f a =
     (if a = Num 0 then Inl ArithmeticException
      else Inr (at (exp_table f) (js_sub (js_sub (Num (size_GF f)) (at (log_table f) a)) (Num 1))))"

definition multiply_GF :: "Generic_GF \<Rightarrow> jsnum \<Rightarrow> jsnum \<Rightarrow> jsnum" where
  "multiply_GF f a b =
     (if a = Num 0 \<or> b = Num 0 then Num 0
      else at (exp_table f)
             (js_rem (js_add (at (log_table f) a) (at (log_table f) b)) (Num (size_GF f - 1))))"

section \<open>Generic_GF_Poly\<close>

text \<open>
  A polynomial is its coefficient array, highest degree first; the field it belongs to
  is passed to the operations that need it. Inside one encoder or decoder every
  polynomial carries that coder's field, so the \<open>this.field !== other.field\<close> guards
  cannot fire there and have no branch here. \<open>field.zero\<close> is \<open>[0]\<close>, \<open>field.one\<close>
  is \<open>[1]\<close>.
\<close>

type_synonym poly = "int list"

text \<open>The constructor: an empty array is refused, leading zeros are skipped.\<close>

definition Generic_GF_Poly :: "int list \<Rightarrow> error + poly" where
  "Generic_GF_Poly coefficients =
     (if coefficients = [] then Inl IllegalArgumentException
      else if length coefficients > 1 \<and> hd coefficients = 0 then
        (let rest = dropWhile (\<lambda>c. c = 0) (tl coefficients) in
         if rest = [] then Inr [0] else Inr rest)
      else Inr coefficients)"

definition degree :: "poly \<Rightarrow> int" where
  "degree p = int (length p) - 1"

definition is_zero :: "poly \<Rightarrow> bool" where
  "is_zero p = (at p (Num 0) = Num 0)"

definition get_coefficient :: "poly \<Rightarrow> int \<Rightarrow> jsnum" where
  "get_coefficient p d = at p (Num (int (length p) - 1 - d))"

definition evaluate_at :: "Generic_GF \<Rightarrow> poly \<Rightarrow> jsnum \<Rightarrow> jsnum" where
  "evaluate_at f p a =
     (if a = Num 0 then get_coefficient p 0
      else if a = Num 1 then Num (fold (\<lambda>c result. add_or_subtract_GF (Num result) (Num c)) p 0)
      else fold (\<lambda>c result. Num (add_or_subtract_GF (multiply_GF f a result) (Num c)))
             (tl p) (at p (Num 0)))"

text \<open>\<open>add_or_subtract\<close> without the \<open>buf\<close> argument: the sum goes to a fresh array.\<close>

definition add_or_subtract :: "poly \<Rightarrow> poly \<Rightarrow> error + poly" where
  "add_or_subtract this other =
     (if is_zero this then Inr other
      else if is_zero other then Inr this
      else
        (let (smaller, larger) =
               (if length this > length other then (other, this) else (this, other));
             length_diff = length larger - length smaller
         in Generic_GF_Poly
              (take length_diff larger @ map2 (XOR) smaller (drop length_diff larger))))"

text \<open>
  \<open>add_or_subtract(other, this.coefficients)\<close>, as \<open>divide\<close> calls it: the sum is written
  into the receiver's own array. When the receiver is the longer operand this changes
  nothing. When it is the shorter or equal one, \<open>sum_diff\<close> is the receiver's array (of
  the receiver's length), the loop reads the entries it has already overwritten, writes
  past the end are dropped, and \<open>set\<close> raises a RangeError if the head of the longer
  operand does not fit.
\<close>

definition add_or_subtract_buf :: "poly \<Rightarrow> poly \<Rightarrow> error + poly" where
  "add_or_subtract_buf this other =
     (if is_zero this then Inr other
      else if is_zero other then Inr this
      else if length this > length other then
        (let length_diff = length this - length other
         in Generic_GF_Poly (take length_diff this @ map2 (XOR) other (drop length_diff this)))
      else
        (let length_diff = length other - length this;
             sum_diff = fold (\<lambda>i s. set_at s (int i) (s ! (i - length_diff) XOR other ! i))
                          [length_diff..<length other] this
         in if length_diff > length this then Inl RangeError
            else Generic_GF_Poly (take length_diff other @ drop length_diff sum_diff)))"

definition multiply_poly :: "Generic_GF \<Rightarrow> poly \<Rightarrow> poly \<Rightarrow> error + poly" where
  "multiply_poly f this other =
     (if is_zero this \<or> is_zero other then Inr [0]
      else Generic_GF_Poly
        (fold (\<lambda>i product.
           fold (\<lambda>j product.
              set_at product (int (i + j))
                (add_or_subtract_GF (Num (product ! (i + j)))
                   (multiply_GF f (Num (this ! i)) (Num (other ! j)))))
             [0..<length other] product)
          [0..<length this] (replicate (length this + length other - 1) 0)))"

definition multiply_scalar :: "Generic_GF \<Rightarrow> poly \<Rightarrow> int \<Rightarrow> error + poly" where
  "multiply_scalar f this scalar =
     (if scalar = 0 then Inr [0]
      else if scalar = 1 then Inr this
      else Generic_GF_Poly (map (\<lambda>c. to_int32 (multiply_GF f (Num c) (Num scalar))) this))"

text \<open>
  \<open>multiply(other)\<close> dispatches on \<open>typeof other === 'number'\<close>; the decoder passes the
  result of \<open>inverse\<close>, and \<open>undefined\<close> is not a number: it would be taken for a
  polynomial, whose \<open>field\<close> cannot be read.
\<close>

fun multiply_number :: "Generic_GF \<Rightarrow> poly \<Rightarrow> jsnum \<Rightarrow> error + poly" where
  "multiply_number f this (Num scalar) = multiply_scalar f this scalar"
| "multiply_number f this Undefined = Inl TypeError"

definition multiply_by_monomial :: "Generic_GF \<Rightarrow> poly \<Rightarrow> int \<Rightarrow> jsnum \<Rightarrow> error + poly" where
  "multiply_by_monomial f this d coefficient =
     (if d < 0 then Inl IllegalArgumentException
      else if coefficient = Num 0 then Inr [0]
      else Generic_GF_Poly
             (map (\<lambda>c. to_int32 (multiply_GF f (Num c) coefficient)) this @ replicate (nat d) 0))"

definition build_monomial :: "int \<Rightarrow> jsnum \<Rightarrow> error + poly" where
  "build_monomial d coefficient =
     (if d < 0 then Inl IllegalArgumentException
      else if coefficient = Num 0 then Inr [0]
      else Generic_GF_Poly (to_int32 coefficient # replicate (nat d) 0))"

text \<open>One round of the loop of \<open>divide\<close>, on the pair (quotient, remainder).\<close>

definition divide_step ::
  "Generic_GF \<Rightarrow> poly \<Rightarrow> jsnum \<Rightarrow> poly \<times> poly \<Rightarrow> error + poly \<times> poly" where
  "divide_step f other inverse_denominator_leading_term qr =
     (let (quotient_p, remainder) = qr;
          degree_difference = degree remainder - degree other;
          scale = multiply_GF f (get_coefficient remainder (degree remainder))
                    inverse_denominator_leading_term
      in case multiply_by_monomial f other degree_difference scale of
           Inl e \<Rightarrow> Inl e
         | Inr term \<Rightarrow>
             (case build_monomial degree_difference scale of
                Inl e \<Rightarrow> Inl e
              | Inr iteration_quotient \<Rightarrow>
                  (case add_or_subtract_buf quotient_p iteration_quotient of
                     Inl e \<Rightarrow> Inl e
                   | Inr quotient_p' \<Rightarrow>
                       (case add_or_subtract_buf remainder term of
                          Inl e \<Rightarrow> Inl e
                        | Inr remainder' \<Rightarrow> Inr (quotient_p', remainder')))))"

text \<open>
  The \<open>while\<close> loop of \<open>divide\<close>. Nothing in the code bounds it: with a scale of 0 the
  remainder does not change. \<open>None\<close> is a loop that does not end.
\<close>

partial_function (option) divide_loop ::
  "Generic_GF \<Rightarrow> poly \<Rightarrow> jsnum \<Rightarrow> poly \<times> poly \<Rightarrow> (error + poly \<times> poly) option" where
  "divide_loop f other dlt_inverse qr =
     (if degree (snd qr) \<ge> degree other \<and> \<not> is_zero (snd qr) then
        (case divide_step f other dlt_inverse qr of
           Inl e \<Rightarrow> Some (Inl e)
         | Inr qr' \<Rightarrow> divide_loop f other dlt_inverse qr')
      else Some (Inr qr))"

declare divide_loop.simps [code]

definition divide :: "Generic_GF \<Rightarrow> poly \<Rightarrow> poly \<Rightarrow> (error + poly \<times> poly) option" where
  "divide f this other =
     (if is_zero other then Some (Inl DivideByZero)
      else case inverse_GF f (get_coefficient other (degree other)) of
             Inl e \<Rightarrow> Some (Inl e)
           | Inr dlt_inverse \<Rightarrow> divide_loop f other dlt_inverse ([0], this))"

section \<open>RS_Encoder\<close>

record RS_Encoder =
  field_of :: Generic_GF
  cached_generators :: "poly list"

definition new_RS_Encoder :: "Generic_GF \<Rightarrow> RS_Encoder" where
  "new_RS_Encoder f = \<lparr>field_of = f, cached_generators = [[1]]\<rparr>"

text \<open>
  The loop of \<open>build_generator\<close>, for \<open>d\<close> and the \<open>n\<close> rounds left; it returns the grown
  cache, and the error if a round raised.
\<close>

fun generator_loop ::
  "Generic_GF \<Rightarrow> poly list \<Rightarrow> poly \<Rightarrow> int \<Rightarrow> nat \<Rightarrow> error option \<times> poly list" where
  "generator_loop f cache last_generator d 0 = (None, cache)"
| "generator_loop f cache last_generator d (Suc n) =
     (case Generic_GF_Poly [1, to_int32 (exp_GF f (Num (d - 1 + generator_base f)))] of
        Inl e \<Rightarrow> (Some e, cache)
      | Inr factor \<Rightarrow>
          (case multiply_poly f last_generator factor of
             Inl e \<Rightarrow> (Some e, cache)
           | Inr next_generator \<Rightarrow>
               generator_loop f (cache @ [next_generator]) next_generator (d + 1) n))"

text \<open>
  \<open>build_generator\<close> returns \<open>cached_generators[degree]\<close>, which is \<open>undefined\<close> (here
  \<open>None\<close>) for a negative degree. The cache is never empty.
\<close>

definition build_generator :: "RS_Encoder \<Rightarrow> int \<Rightarrow> (error + poly option) \<times> RS_Encoder" where
  "build_generator enc d =
     (let cache = cached_generators enc in
      if cache = [] then (Inl TypeError, enc)
      else
        (let (err, cache') =
               (if d \<ge> int (length cache)
                then generator_loop (field_of enc) cache (last cache) (int (length cache))
                       (nat (d + 1 - int (length cache)))
                else (None, cache));
             enc' = enc\<lparr>cached_generators := cache'\<rparr>
         in case err of
              Some e \<Rightarrow> (Inl e, enc')
            | None \<Rightarrow>
                (if 0 \<le> d \<and> d < int (length cache') then (Inr (Some (cache' ! nat d)), enc')
                 else (Inr None, enc'))))"

text \<open>
  \<open>encode\<close> returns the error raised, if any, with the encoder and the buffer as the
  call leaves them. \<open>data.set(src, offset)\<close> raises a RangeError when the offset is
  negative or the source does not fit.
\<close>

definition write_parity :: "int list \<Rightarrow> int \<Rightarrow> int \<Rightarrow> poly \<Rightarrow> error option \<times> int list" where
  "write_parity data data_bytes ec_bytes coefficients =
     (let num_zero_coefficients = ec_bytes - int (length coefficients);
          data1 = fold (\<lambda>i d. set_at d (data_bytes + int i) 0) [0..<nat num_zero_coefficients] data;
          offset = data_bytes + num_zero_coefficients
      in if offset < 0 \<or> offset + int (length coefficients) > int (length data1)
         then (Some RangeError, data1)
         else (None, take (nat offset) data1 @ coefficients
                       @ drop (nat offset + length coefficients) data1))"

definition encode ::
  "RS_Encoder \<Rightarrow> int list \<Rightarrow> int \<Rightarrow> (error option \<times> RS_Encoder \<times> int list) option" where
  "encode enc data ec_bytes =
     (if ec_bytes = 0 then Some (Some NoErrorCorrectionBytes, enc, data)
      else
        (let data_bytes = int (length data) - ec_bytes in
         if data_bytes \<le> 0 then Some (Some NoDataBytes, enc, data)
         else
           (case build_generator enc ec_bytes of
              (Inl e, enc') \<Rightarrow> Some (Some e, enc', data)
            | (Inr generator, enc') \<Rightarrow>
                (let info_coefficients =
                       take (nat data_bytes) data @ replicate (nat data_bytes - length data) 0
                 in case Generic_GF_Poly info_coefficients of
                      Inl e \<Rightarrow> Some (Some e, enc', data)
                    | Inr info0 \<Rightarrow>
                        (case multiply_by_monomial (field_of enc) info0 ec_bytes (Num 1) of
                           Inl e \<Rightarrow> Some (Some e, enc', data)
                         | Inr info \<Rightarrow>
                             (case generator of
                                None \<Rightarrow> Some (Some TypeError, enc', data)
                              | Some g \<Rightarrow>
                                  (case divide (field_of enc) info g of
                                     None \<Rightarrow> None
                                   | Some (Inl e) \<Rightarrow> Some (Some e, enc', data)
                                   | Some (Inr (quotient_p, remainder)) \<Rightarrow>
                                       (let (err, data') =
                                              write_parity data data_bytes ec_bytes remainder
                                        in Some (err, enc', data')))))))))"

section \<open>RS_Decoder\<close>

text \<open>One round of the inner loop of \<open>run_euclidean_algorithm\<close>, on the pair (q, r).\<close>

definition euclid_inner_step ::
  "Generic_GF \<Rightarrow> poly \<Rightarrow> jsnum \<Rightarrow> poly \<times> poly \<Rightarrow> error + poly \<times> poly" where
  "euclid_inner_step f r_last dlt_inverse qr =
     (let (q, r) = qr;
          degree_diff = degree r - degree r_last;
          scale = multiply_GF f (get_coefficient r (degree r)) dlt_inverse
      in case build_monomial degree_diff scale of
           Inl e \<Rightarrow> Inl e
         | Inr m \<Rightarrow>
             (case add_or_subtract q m of
                Inl e \<Rightarrow> Inl e
              | Inr q' \<Rightarrow>
                  (case multiply_by_monomial f r_last degree_diff scale of
                     Inl e \<Rightarrow> Inl e
                   | Inr term \<Rightarrow>
                       (case add_or_subtract r term of
                          Inl e \<Rightarrow> Inl e
                        | Inr r' \<Rightarrow> Inr (q', r')))))"

partial_function (option) euclid_inner_loop ::
  "Generic_GF \<Rightarrow> poly \<Rightarrow> jsnum \<Rightarrow> poly \<times> poly \<Rightarrow> (error + poly \<times> poly) option" where
  "euclid_inner_loop f r_last dlt_inverse qr =
     (if degree (snd qr) \<ge> degree r_last \<and> \<not> is_zero (snd qr) then
        (case euclid_inner_step f r_last dlt_inverse qr of
           Inl e \<Rightarrow> Some (Inl e)
         | Inr qr' \<Rightarrow> euclid_inner_loop f r_last dlt_inverse qr')
      else Some (Inr qr))"

declare euclid_inner_loop.simps [code]

text \<open>
  One round of the outer loop, on (r_last, r, t_last, t). The test \<open>r.degree >= R / 2\<close>
  divides as a float, so for integers it is \<open>2 * r.degree >= R\<close>.
\<close>

definition euclid_step ::
  "Generic_GF \<Rightarrow> poly \<times> poly \<times> poly \<times> poly \<Rightarrow> (error + poly \<times> poly \<times> poly \<times> poly) option" where
  "euclid_step f st =
     (let (r_last_last, r_last, t_last_last, t_last) = st in
      if is_zero r_last then Some (Inl RemainderWasZero)
      else case inverse_GF f (get_coefficient r_last (degree r_last)) of
             Inl e \<Rightarrow> Some (Inl e)
           | Inr dlt_inverse \<Rightarrow>
               (case euclid_inner_loop f r_last dlt_inverse ([0], r_last_last) of
                  None \<Rightarrow> None
                | Some (Inl e) \<Rightarrow> Some (Inl e)
                | Some (Inr (q, r)) \<Rightarrow>
                    (case multiply_poly f q t_last of
                       Inl e \<Rightarrow> Some (Inl e)
                     | Inr qt \<Rightarrow>
                         (case add_or_subtract qt t_last_last of
                            Inl e \<Rightarrow> Some (Inl e)
                          | Inr t \<Rightarrow>
                              if degree r \<ge> degree r_last
                              then Some (Inl DivisionFailedToReduce)
                              else Some (Inr (r_last, r, t_last, t))))))"

partial_function (option) euclid_loop ::
  "Generic_GF \<Rightarrow> int \<Rightarrow> poly \<times> poly \<times> poly \<times> poly \<Rightarrow> (error + poly \<times> poly \<times> poly \<times> poly) option"
  where
  "euclid_loop f R st =
     (if 2 * degree (fst (snd st)) \<ge> R then
        (case euclid_step f st of
           None \<Rightarrow> None
         | Some (Inl e) \<Rightarrow> Some (Inl e)
         | Some (Inr st') \<Rightarrow> euclid_loop f R st')
      else Some (Inr st))"

declare euclid_loop.simps [code]

definition run_euclidean_algorithm ::
  "Generic_GF \<Rightarrow> poly \<Rightarrow> poly \<Rightarrow> int \<Rightarrow> (error + poly \<times> poly) option" where
  "run_euclidean_algorithm f a b R =
     (let (a', b') = (if degree a < degree b then (b, a) else (a, b)) in
      case euclid_loop f R (a', b', [0], [1]) of
        None \<Rightarrow> None
      | Some (Inl e) \<Rightarrow> Some (Inl e)
      | Some (Inr (r_last, r, t_last, t)) \<Rightarrow>
          (let sigma_tilde_at_zero = get_coefficient t 0 in
           if sigma_tilde_at_zero = Num 0 then Some (Inl SigmaTildeZero)
           else case inverse_GF f sigma_tilde_at_zero of
                  Inl e \<Rightarrow> Some (Inl e)
                | Inr inv_s \<Rightarrow>
                    (case multiply_number f t inv_s of
                       Inl e \<Rightarrow> Some (Inl e)
                     | Inr sigma \<Rightarrow>
                         (case multiply_number f r inv_s of
                            Inl e \<Rightarrow> Some (Inl e)
                          | Inr omega \<Rightarrow> Some (Inr (sigma, omega))))))"

text \<open>
  The search loop of \<open>find_error_locations\<close> over the candidates \<open>i\<close>, on (result, e);
  it stops as soon as \<open>e\<close> reaches \<open>num_errors\<close>.
\<close>

fun chien_search ::
  "Generic_GF \<Rightarrow> poly \<Rightarrow> int \<Rightarrow> int list \<Rightarrow> int list \<times> int \<Rightarrow> error + int list \<times> int" where
  "chien_search f error_locator num_errors [] (result, e) = Inr (result, e)"
| "chien_search f error_locator num_errors (i # is) (result, e) =
     (if e < num_errors then
        (if evaluate_at f error_locator (Num i) = Num 0 then
           (case inverse_GF f (Num i) of
              Inl err \<Rightarrow> Inl err
            | Inr v \<Rightarrow>
                chien_search f error_locator num_errors is (set_at result e (to_int32 v), e + 1))
         else chien_search f error_locator num_errors is (result, e))
      else Inr (result, e))"

definition find_error_locations :: "Generic_GF \<Rightarrow> poly \<Rightarrow> error + int list" where
  "find_error_locations f error_locator =
     (let num_errors = degree error_locator in
      if num_errors = 1 then Inr [to_int32 (get_coefficient error_locator 1)]
      else case chien_search f error_locator num_errors [1..size_GF f - 1]
                  (replicate (nat num_errors) 0, 0) of
             Inl err \<Rightarrow> Inl err
           | Inr (result, e) \<Rightarrow> if e \<noteq> num_errors then Inl DegreeMismatch else Inr result)"

text \<open>The body of the outer loop of \<open>find_error_magnitudes\<close>: the magnitude at index \<open>i\<close>.\<close>

definition error_magnitude :: "Generic_GF \<Rightarrow> poly \<Rightarrow> int list \<Rightarrow> nat \<Rightarrow> error + int" where
  "error_magnitude f error_evaluator error_locations i =
     (case inverse_GF f (Num (error_locations ! i)) of
        Inl err \<Rightarrow> Inl err
      | Inr xi_inverse \<Rightarrow>
          (let denominator =
                 fold (\<lambda>j denominator.
                         if i \<noteq> j then
                           multiply_GF f denominator
                             (Num (add_or_subtract_GF (Num 1)
                                     (multiply_GF f (Num (error_locations ! j)) xi_inverse)))
                         else denominator)
                   [0..<length error_locations] (Num 1)
           in case inverse_GF f denominator of
                Inl err \<Rightarrow> Inl err
              | Inr denominator_inverse \<Rightarrow>
                  (let result_i =
                         to_int32 (multiply_GF f (evaluate_at f error_evaluator xi_inverse)
                                     denominator_inverse)
                   in if generator_base f \<noteq> 0
                      then Inr (to_int32 (multiply_GF f (Num result_i) xi_inverse))
                      else Inr result_i)))"

fun magnitudes_loop :: "Generic_GF \<Rightarrow> poly \<Rightarrow> int list \<Rightarrow> nat list \<Rightarrow> error + int list" where
  "magnitudes_loop f error_evaluator error_locations [] = Inr []"
| "magnitudes_loop f error_evaluator error_locations (i # is) =
     (case error_magnitude f error_evaluator error_locations i of
        Inl err \<Rightarrow> Inl err
      | Inr m \<Rightarrow>
          (case magnitudes_loop f error_evaluator error_locations is of
             Inl err \<Rightarrow> Inl err
           | Inr ms \<Rightarrow> Inr (m # ms)))"

definition find_error_magnitudes :: "Generic_GF \<Rightarrow> poly \<Rightarrow> int list \<Rightarrow> error + int list" where
  "find_error_magnitudes f error_evaluator error_locations =
     magnitudes_loop f error_evaluator error_locations [0..<length error_locations]"

text \<open>
  The last loop of \<open>decode\<close>, over the pairs of a location and its magnitude. A throw
  leaves the corrections already made in the buffer. With \<open>log\<close> undefined the position
  is \<open>NaN\<close>: it is not below 0, and the write to it is dropped.
\<close>

fun apply_corrections ::
  "Generic_GF \<Rightarrow> int list \<Rightarrow> (int \<times> int) list \<Rightarrow> error option \<times> int list" where
  "apply_corrections f received [] = (None, received)"
| "apply_corrections f received ((location, magnitude) # rest) =
     (case log_GF f (Num location) of
        Inl err \<Rightarrow> (Some err, received)
      | Inr l \<Rightarrow>
          (case js_sub (Num (int (length received) - 1)) l of
             Undefined \<Rightarrow> apply_corrections f received rest
           | Num position \<Rightarrow>
               if position < 0 then (Some BadErrorLocation, received)
               else apply_corrections f
                      (set_at received position
                         (add_or_subtract_GF (at received (Num position)) (Num magnitude)))
                      rest))"

text \<open>
  \<open>decode\<close> returns the error raised, if any, with the buffer as the call leaves it.
  \<open>new Int32Array(ec_bytes)\<close> raises a RangeError for a negative length.
\<close>

definition syndrome_evaluations :: "Generic_GF \<Rightarrow> poly \<Rightarrow> int \<Rightarrow> jsnum list" where
  "syndrome_evaluations f p ec_bytes =
     map (\<lambda>i. evaluate_at f p (exp_GF f (Num (int i + generator_base f)))) [0..<nat ec_bytes]"

definition decode :: "Generic_GF \<Rightarrow> int list \<Rightarrow> int \<Rightarrow> (error option \<times> int list) option" where
  "decode f received ec_bytes =
     (case Generic_GF_Poly received of
        Inl e \<Rightarrow> Some (Some e, received)
      | Inr p \<Rightarrow>
          if ec_bytes < 0 then Some (Some RangeError, received)
          else
            (let evals = syndrome_evaluations f p ec_bytes;
                 syndrome_coefficients = rev (map to_int32 evals)
             in if list_all (\<lambda>eval_result. eval_result = Num 0) evals then Some (None, received)
                else
                  (case Generic_GF_Poly syndrome_coefficients of
                     Inl e \<Rightarrow> Some (Some e, received)
                   | Inr syndrome \<Rightarrow>
                       (case build_monomial ec_bytes (Num 1) of
                          Inl e \<Rightarrow> Some (Some e, received)
                        | Inr a \<Rightarrow>
                            (case run_euclidean_algorithm f a syndrome ec_bytes of
                               None \<Rightarrow> None
                             | Some (Inl e) \<Rightarrow> Some (Some e, received)
                             | Some (Inr (sigma, omega)) \<Rightarrow>
                                 (case find_error_locations f sigma of
                                    Inl e \<Rightarrow> Some (Some e, received)
                                  | Inr error_locations \<Rightarrow>
                                      (case find_error_magnitudes f omega error_locations of
                                         Inl e \<Rightarrow> Some (Some e, received)
                                       | Inr error_magnitudes \<Rightarrow>
                                           Some (apply_corrections f received
                                                   (zip error_locations error_magnitudes)))))))))"

section \<open>Specification vocabulary\<close>

text \<open>A byte, the element type of the buffers (\<open>byte[0,255]\<close>).\<close>

definition byte :: "int \<Rightarrow> bool" where
  "byte x \<longleftrightarrow> 0 \<le> x \<and> x < 256"

text \<open>
  The fields the codec is meant for: 256 elements, tables as the constructor builds
  them, and the invariant of the data model: \<open>exp_table[log_table[x]] = x\<close> for every
  non-zero \<open>x\<close>, and \<open>exp_table\<close> is cyclic with period \<open>size - 1\<close> (the polynomial given
  as \<open>primitive\<close> is primitive indeed). The constructor itself checks nothing.
\<close>

definition proper_GF256 :: "Generic_GF \<Rightarrow> bool" where
  "proper_GF256 f \<longleftrightarrow>
     size_GF f = 256 \<and>
     exp_table f = exp_entries (primitive f) 256 256 1 \<and>
     log_table f = log_entries 256 (exp_table f) \<and>
     exp_table f ! 255 = 1 \<and>
     list_all (\<lambda>x. 0 \<le> log_table f ! x \<and> log_table f ! x < 255 \<and>
                    exp_table f ! nat (log_table f ! x) = int x) [1..<256]"

text \<open>The product of two field elements as a number, the discrete logarithm as an index,
  and the doubling step of the constructor.\<close>

definition gmul :: "Generic_GF \<Rightarrow> int \<Rightarrow> int \<Rightarrow> int" where
  "gmul f a b = to_int32 (multiply_GF f (Num a) (Num b))"

definition lg :: "Generic_GF \<Rightarrow> int \<Rightarrow> nat" where
  "lg f a = nat (log_table f ! nat a)"

definition dbl :: "Generic_GF \<Rightarrow> int \<Rightarrow> int" where
  "dbl f = next_x (primitive f) 256"

text \<open>A buffer is a valid codeword when the decoder's syndrome evaluations are all 0.\<close>

definition valid_codeword :: "Generic_GF \<Rightarrow> int list \<Rightarrow> int \<Rightarrow> bool" where
  "valid_codeword f received ec_bytes \<longleftrightarrow>
     (case Generic_GF_Poly received of
        Inl e \<Rightarrow> False
      | Inr p \<Rightarrow> list_all (\<lambda>eval_result. eval_result = Num 0) (syndrome_evaluations f p ec_bytes))"

section \<open>The two predefined fields\<close>

lemma GF_DATA_MATRIX_256_tables [code]:
  "GF_DATA_MATRIX_256 =
     \<lparr>primitive = 301, size_GF = 256, generator_base = 1,
      exp_table =
        [1, 2, 4, 8, 16, 32, 64, 128, 45, 90, 180, 69, 138, 57, 114, 228, 229, 231, 227,
         235, 251, 219, 155, 27, 54, 108, 216, 157, 23, 46, 92, 184, 93, 186, 89, 178, 73,
         146, 9, 18, 36, 72, 144, 13, 26, 52, 104, 208, 141, 55, 110, 220, 149, 7, 14, 28,
         56, 112, 224, 237, 247, 195, 171, 123, 246, 193, 175, 115, 230, 225, 239, 243,
         203, 187, 91, 182, 65, 130, 41, 82, 164, 101, 202, 185, 95, 190, 81, 162, 105,
         210, 137, 63, 126, 252, 213, 135, 35, 70, 140, 53, 106, 212, 133, 39, 78, 156, 21,
         42, 84, 168, 125, 250, 217, 159, 19, 38, 76, 152, 29, 58, 116, 232, 253, 215, 131,
         43, 86, 172, 117, 234, 249, 223, 147, 11, 22, 44, 88, 176, 77, 154, 25, 50, 100,
         200, 189, 87, 174, 113, 226, 233, 255, 211, 139, 59, 118, 236, 245, 199, 163, 107,
         214, 129, 47, 94, 188, 85, 170, 121, 242, 201, 191, 83, 166, 97, 194, 169, 127,
         254, 209, 143, 51, 102, 204, 181, 71, 142, 49, 98, 196, 165, 103, 206, 177, 79,
         158, 17, 34, 68, 136, 61, 122, 244, 197, 167, 99, 198, 161, 111, 222, 145, 15, 30,
         60, 120, 240, 205, 183, 67, 134, 33, 66, 132, 37, 74, 148, 5, 10, 20, 40, 80, 160,
         109, 218, 153, 31, 62, 124, 248, 221, 151, 3, 6, 12, 24, 48, 96, 192, 173, 119,
         238, 241, 207, 179, 75, 150, 1],
      log_table =
        [0, 0, 1, 240, 2, 225, 241, 53, 3, 38, 226, 133, 242, 43, 54, 210, 4, 195, 39, 114,
         227, 106, 134, 28, 243, 140, 44, 23, 55, 118, 211, 234, 5, 219, 196, 96, 40, 222,
         115, 103, 228, 78, 107, 125, 135, 8, 29, 162, 244, 186, 141, 180, 45, 99, 24, 49,
         56, 13, 119, 153, 212, 199, 235, 91, 6, 76, 220, 217, 197, 11, 97, 184, 41, 36,
         223, 253, 116, 138, 104, 193, 229, 86, 79, 171, 108, 165, 126, 145, 136, 34, 9,
         74, 30, 32, 163, 84, 245, 173, 187, 204, 142, 81, 181, 190, 46, 88, 100, 159, 25,
         231, 50, 207, 57, 147, 14, 67, 120, 128, 154, 248, 213, 167, 200, 63, 236, 110,
         92, 176, 7, 161, 77, 124, 221, 102, 218, 95, 198, 90, 12, 152, 98, 48, 185, 179,
         42, 209, 37, 132, 224, 52, 254, 239, 117, 233, 139, 22, 105, 27, 194, 113, 230,
         206, 87, 158, 80, 189, 172, 203, 109, 175, 166, 62, 127, 247, 146, 66, 137, 192,
         35, 252, 10, 183, 75, 216, 31, 83, 33, 73, 164, 144, 85, 170, 246, 65, 174, 61,
         188, 202, 205, 157, 143, 169, 82, 72, 182, 215, 191, 251, 47, 178, 89, 151, 101,
         94, 160, 123, 26, 112, 232, 21, 51, 238, 208, 131, 58, 69, 148, 18, 15, 16, 68,
         17, 121, 149, 129, 19, 155, 59, 249, 70, 214, 250, 168, 71, 201, 156, 64, 60, 237,
         130, 111, 20, 93, 122, 177, 150]\<rparr>"
  by code_simp

lemma GF_QR_CODE_256_tables [code]:
  "GF_QR_CODE_256 =
     \<lparr>primitive = 285, size_GF = 256, generator_base = 0,
      exp_table =
        [1, 2, 4, 8, 16, 32, 64, 128, 29, 58, 116, 232, 205, 135, 19, 38, 76, 152, 45, 90,
         180, 117, 234, 201, 143, 3, 6, 12, 24, 48, 96, 192, 157, 39, 78, 156, 37, 74, 148,
         53, 106, 212, 181, 119, 238, 193, 159, 35, 70, 140, 5, 10, 20, 40, 80, 160, 93,
         186, 105, 210, 185, 111, 222, 161, 95, 190, 97, 194, 153, 47, 94, 188, 101, 202,
         137, 15, 30, 60, 120, 240, 253, 231, 211, 187, 107, 214, 177, 127, 254, 225, 223,
         163, 91, 182, 113, 226, 217, 175, 67, 134, 17, 34, 68, 136, 13, 26, 52, 104, 208,
         189, 103, 206, 129, 31, 62, 124, 248, 237, 199, 147, 59, 118, 236, 197, 151, 51,
         102, 204, 133, 23, 46, 92, 184, 109, 218, 169, 79, 158, 33, 66, 132, 21, 42, 84,
         168, 77, 154, 41, 82, 164, 85, 170, 73, 146, 57, 114, 228, 213, 183, 115, 230,
         209, 191, 99, 198, 145, 63, 126, 252, 229, 215, 179, 123, 246, 241, 255, 227, 219,
         171, 75, 150, 49, 98, 196, 149, 55, 110, 220, 165, 87, 174, 65, 130, 25, 50, 100,
         200, 141, 7, 14, 28, 56, 112, 224, 221, 167, 83, 166, 81, 162, 89, 178, 121, 242,
         249, 239, 195, 155, 43, 86, 172, 69, 138, 9, 18, 36, 72, 144, 61, 122, 244, 245,
         247, 243, 251, 235, 203, 139, 11, 22, 44, 88, 176, 125, 250, 233, 207, 131, 27,
         54, 108, 216, 173, 71, 142, 1],
      log_table =
        [0, 0, 1, 25, 2, 50, 26, 198, 3, 223, 51, 238, 27, 104, 199, 75, 4, 100, 224, 14,
         52, 141, 239, 129, 28, 193, 105, 248, 200, 8, 76, 113, 5, 138, 101, 47, 225, 36,
         15, 33, 53, 147, 142, 218, 240, 18, 130, 69, 29, 181, 194, 125, 106, 39, 249, 185,
         201, 154, 9, 120, 77, 228, 114, 166, 6, 191, 139, 98, 102, 221, 48, 253, 226, 152,
         37, 179, 16, 145, 34, 136, 54, 208, 148, 206, 143, 150, 219, 189, 241, 210, 19,
         92, 131, 56, 70, 64, 30, 66, 182, 163, 195, 72, 126, 110, 107, 58, 40, 84, 250,
         133, 186, 61, 202, 94, 155, 159, 10, 21, 121, 43, 78, 212, 229, 172, 115, 243,
         167, 87, 7, 112, 192, 247, 140, 128, 99, 13, 103, 74, 222, 237, 49, 197, 254, 24,
         227, 165, 153, 119, 38, 184, 180, 124, 17, 68, 146, 217, 35, 32, 137, 46, 55, 63,
         209, 91, 149, 188, 207, 205, 144, 135, 151, 178, 220, 252, 190, 97, 242, 86, 211,
         171, 20, 42, 93, 158, 132, 60, 57, 83, 71, 109, 65, 162, 31, 45, 67, 216, 183,
         123, 164, 118, 196, 23, 73, 236, 127, 12, 111, 246, 108, 161, 59, 82, 41, 157, 85,
         170, 251, 96, 134, 177, 187, 204, 62, 90, 203, 89, 95, 176, 156, 169, 160, 81, 11,
         245, 22, 235, 122, 117, 44, 215, 79, 174, 213, 233, 230, 231, 173, 232, 116, 214,
         244, 234, 168, 80, 88, 175]\<rparr>"
  by code_simp

lemma proper_GF_DATA_MATRIX_256: "proper_GF256 GF_DATA_MATRIX_256"
  by code_simp

lemma proper_GF_QR_CODE_256: "proper_GF256 GF_QR_CODE_256"
  by code_simp

section \<open>Field arithmetic from the tables\<close>

lemma byte_take_bit: "byte x \<longleftrightarrow> take_bit 8 x = x"
  unfolding byte_def by (simp add: take_bit_int_eq_self_iff)

lemma ge128: "byte x \<Longrightarrow> (x * 2 \<ge> 256) = bit x 7"
  unfolding bit_iff_odd byte_def by (simp, presburger)

lemma and255: "(x::int) AND 255 = take_bit 8 x"
  by (simp add: take_bit_eq_mask mask_eq_exp_minus_1)

lemma next_x_alt:
  assumes b: "byte x"
  shows "next_x p 256 x = take_bit 8 (push_bit 1 x) XOR (if bit x 7 then take_bit 8 p else 0)"
proof (cases "bit x 7")
  case True
  then have "x * 2 \<ge> 256" using ge128[OF b] by simp
  then show ?thesis using True by (simp add: next_x_def and255 push_bit_eq_mult)
next
  case False
  then have n: "\<not> x * 2 \<ge> 256" using ge128[OF b] by simp
  then have "take_bit 8 (x * 2) = x * 2" using b by (simp add: take_bit_int_eq_self_iff byte_def)
  then show ?thesis using False n by (simp add: next_x_def push_bit_eq_mult)
qed

lemma byte_xor: "byte x \<Longrightarrow> byte y \<Longrightarrow> byte (x XOR y)"
  unfolding byte_take_bit by simp

lemma byte_0 [simp]: "byte 0" and byte_1 [simp]: "byte 1" by (simp_all add: byte_def)

lemma byte_dbl: "byte x \<Longrightarrow> byte (dbl f x)"
  by (simp add: dbl_def next_x_alt byte_take_bit)

lemma dbl_xor: "byte x \<Longrightarrow> byte y \<Longrightarrow> dbl f (x XOR y) = dbl f x XOR dbl f y"
  by (simp add: dbl_def next_x_alt byte_xor bit_xor_iff ac_simps)

lemma dbl_0 [simp]: "dbl f 0 = 0" by (simp add: dbl_def next_x_def)

lemma byte_funpow: "byte x \<Longrightarrow> byte ((dbl f ^^ n) x)"
  by (induction n) (simp_all add: byte_dbl)

lemma funpow_xor: "byte x \<Longrightarrow> byte y \<Longrightarrow> (dbl f ^^ n) (x XOR y) = (dbl f ^^ n) x XOR (dbl f ^^ n) y"
  by (induction n) (simp_all add: dbl_xor byte_funpow)

lemma funpow_0 [simp]: "(dbl f ^^ n) 0 = 0"
  by (induction n) simp_all

lemma length_exp_entries [simp]: "length (exp_entries p s n x) = n"
  by (induction n arbitrary: x) simp_all

lemma exp_entries_nth: "i < n \<Longrightarrow> exp_entries p s n x ! i = (next_x p s ^^ i) x"
proof (induction n arbitrary: x i)
  case 0
  then show ?case by simp
next
  case (Suc n)
  show ?case
  proof (cases i)
    case 0
    then show ?thesis by simp
  next
    case (Suc j)
    with Suc.prems have "j < n" by simp
    then show ?thesis using Suc.IH[of j "next_x p s x"] Suc by (simp add: funpow_swap1)
  qed
qed

lemma proper_size: "proper_GF256 f \<Longrightarrow> size_GF f = 256"
  by (simp add: proper_GF256_def)

lemma proper_exp_nth: "proper_GF256 f \<Longrightarrow> i < 256 \<Longrightarrow> exp_table f ! i = (dbl f ^^ i) 1"
  by (simp add: proper_GF256_def exp_entries_nth dbl_def)

lemma proper_length_exp [simp]: "proper_GF256 f \<Longrightarrow> length (exp_table f) = 256"
  by (simp add: proper_GF256_def)

lemma length_fold_set_at [simp]: "length (fold (\<lambda>i lt. set_at lt (g i) (h i)) is xs) = length xs"
  by (induction "is" arbitrary: xs) (simp_all add: set_at_def)

lemma proper_length_log [simp]: "proper_GF256 f \<Longrightarrow> length (log_table f) = 256"
  by (simp add: proper_GF256_def log_entries_def)

lemma proper_cycle:
  assumes "proper_GF256 f" shows "(dbl f ^^ 255) 1 = 1"
proof -
  have "exp_table f ! 255 = 1" using assms unfolding proper_GF256_def by blast
  then show ?thesis using proper_exp_nth[OF assms, of 255] by simp
qed

lemma funpow_mod: "proper_GF256 f \<Longrightarrow> (dbl f ^^ n) 1 = (dbl f ^^ (n mod 255)) 1"
proof (induction n rule: less_induct)
  case (less n)
  show ?case
  proof (cases "n < 255")
    case True
    then show ?thesis by simp
  next
    case False
    then have n: "n = (n - 255) + 255" by simp
    have "(dbl f ^^ n) 1 = (dbl f ^^ (n - 255)) ((dbl f ^^ 255) 1)"
      by (subst n, simp only: funpow_add o_apply)
    also have "\<dots> = (dbl f ^^ (n - 255)) 1" using less.prems by (simp add: proper_cycle)
    also have "\<dots> = (dbl f ^^ ((n - 255) mod 255)) 1" using less.IH[of "n - 255"] False less.prems by simp
    also have "(n - 255) mod 255 = n mod 255" using False by (simp add: le_mod_geq)
    finally show ?thesis .
  qed
qed

lemma proper_log:
  assumes "proper_GF256 f" "byte a" "a \<noteq> 0"
  shows "0 \<le> log_table f ! nat a" "log_table f ! nat a < 255" "exp_table f ! lg f a = a" "lg f a < 255"
proof -
  have "nat a \<in> set [1..<256]" using assms by (auto simp: byte_def)
  with assms(1) have *: "0 \<le> log_table f ! nat a \<and> log_table f ! nat a < 255 \<and>
      exp_table f ! nat (log_table f ! nat a) = int (nat a)"
    unfolding proper_GF256_def list_all_iff by blast
  have a: "int (nat a) = a" using assms(2) by (simp add: byte_def)
  show "0 \<le> log_table f ! nat a" "log_table f ! nat a < 255" using * by auto
  show "exp_table f ! lg f a = a" using * a by (simp add: lg_def)
  show "lg f a < 255" using * unfolding lg_def by linarith
qed

lemma funpow_lg: "proper_GF256 f \<Longrightarrow> byte a \<Longrightarrow> a \<noteq> 0 \<Longrightarrow> (dbl f ^^ lg f a) 1 = a"
  using proper_log(3,4)[of f a] proper_exp_nth[of f "lg f a"] by simp

lemma multiply_GF_nonzero:
  assumes "proper_GF256 f" "byte a" "a \<noteq> 0" "byte b" "b \<noteq> 0"
  shows "multiply_GF f (Num a) (Num b) = Num (exp_table f ! ((lg f a + lg f b) mod 255))"
proof -
  let ?la = "log_table f ! nat a" and ?lb = "log_table f ! nat b"
  have la: "0 \<le> ?la" "?la < 255" and lb: "0 \<le> ?lb" "?lb < 255"
    using proper_log[OF assms(1,2,3)] proper_log[OF assms(1,4,5)] by auto
  have a: "at (log_table f) (Num a) = Num ?la" and b: "at (log_table f) (Num b) = Num ?lb"
    using assms(2,4) proper_length_log[OF assms(1)] by (auto simp: byte_def)
  have s: "sgn (?la + ?lb) * (\<bar>?la + ?lb\<bar> mod 255) = (?la + ?lb) mod 255"
    using la lb by (cases "?la + ?lb = 0") (auto simp: sgn_if)
  have m: "0 \<le> (?la + ?lb) mod 255" "(?la + ?lb) mod 255 < 256"
    by (auto intro: order_less_trans[OF pos_mod_bound])
  have n: "nat ((?la + ?lb) mod 255) = (lg f a + lg f b) mod 255"
    using la lb by (simp add: lg_def nat_mod_distrib nat_add_distrib)
  show ?thesis
    unfolding multiply_GF_def a b
    using assms(3,5) m proper_size[OF assms(1)] proper_length_exp[OF assms(1)]
    by (simp add: s n)
qed

lemma gmul_funpow:
  assumes "proper_GF256 f" "byte a" "byte b" "b \<noteq> 0"
  shows "gmul f a b = (dbl f ^^ lg f b) a"
proof (cases "a = 0")
  case True
  then show ?thesis by (simp add: gmul_def multiply_GF_def)
next
  case False
  have "gmul f a b = exp_table f ! ((lg f a + lg f b) mod 255)"
    using multiply_GF_nonzero[OF assms(1,2) False assms(3,4)] by (simp add: gmul_def)
  also have "\<dots> = (dbl f ^^ ((lg f a + lg f b) mod 255)) 1"
    using assms(1) by (simp add: proper_exp_nth)
  also have "\<dots> = (dbl f ^^ (lg f b + lg f a)) 1"
    using funpow_mod[OF assms(1), of "lg f a + lg f b"] by (simp add: add.commute)
  also have "\<dots> = (dbl f ^^ lg f b) ((dbl f ^^ lg f a) 1)"
    by (simp only: funpow_add o_apply)
  also have "\<dots> = (dbl f ^^ lg f b) a" using funpow_lg[OF assms(1,2) False] by simp
  finally show ?thesis .
qed

lemma gmul_0 [simp]: "gmul f 0 b = 0" "gmul f a 0 = 0"
  by (simp_all add: gmul_def multiply_GF_def)

lemma gmul_commute: "gmul f a b = gmul f b a"
  by (simp add: gmul_def multiply_GF_def add.commute disj_commute)

lemma byte_gmul: "proper_GF256 f \<Longrightarrow> byte a \<Longrightarrow> byte b \<Longrightarrow> byte (gmul f a b)"
  by (cases "b = 0") (simp_all add: gmul_funpow byte_funpow)

lemma multiply_GF_Num:
  assumes "proper_GF256 f" "byte a" "byte b"
  shows "multiply_GF f (Num a) (Num b) = Num (gmul f a b)"
proof (cases "a = 0 \<or> b = 0")
  case True
  then show ?thesis by (auto simp: gmul_def multiply_GF_def)
next
  case False
  then show ?thesis using multiply_GF_nonzero[OF assms(1,2) _ assms(3)] by (simp add: gmul_def)
qed

lemma gmul_xor_left:
  "proper_GF256 f \<Longrightarrow> byte a \<Longrightarrow> byte b \<Longrightarrow> byte c \<Longrightarrow>
   gmul f (a XOR b) c = gmul f a c XOR gmul f b c"
  by (cases "c = 0") (simp_all add: gmul_funpow byte_xor funpow_xor)

lemma gmul_xor_right:
  "proper_GF256 f \<Longrightarrow> byte a \<Longrightarrow> byte b \<Longrightarrow> byte c \<Longrightarrow>
   gmul f a (b XOR c) = gmul f a b XOR gmul f a c"
  using gmul_xor_left[of f b c a] by (simp add: gmul_commute)

lemma funpow_gmul:
  assumes "proper_GF256 f" "byte a" "byte b"
  shows "(dbl f ^^ n) (gmul f a b) = gmul f ((dbl f ^^ n) a) b"
proof (cases "b = 0")
  case True then show ?thesis by simp
next
  case False
  have "(dbl f ^^ n) (gmul f a b) = (dbl f ^^ (n + lg f b)) a"
    using assms False by (simp add: gmul_funpow funpow_add)
  also have "\<dots> = (dbl f ^^ lg f b) ((dbl f ^^ n) a)"
    by (simp add: add.commute[of n] funpow_add)
  finally show ?thesis using assms False by (simp add: gmul_funpow byte_funpow)
qed

lemma gmul_assoc:
  assumes "proper_GF256 f" "byte a" "byte b" "byte c"
  shows "gmul f (gmul f a b) c = gmul f a (gmul f b c)"
proof (cases "c = 0")
  case True then show ?thesis by simp
next
  case False
  have "gmul f a (gmul f b c) = gmul f (gmul f b c) a" by (rule gmul_commute)
  also have "\<dots> = gmul f ((dbl f ^^ lg f c) b) a" using assms False by (simp add: gmul_funpow)
  also have "\<dots> = (dbl f ^^ lg f c) (gmul f b a)" using assms by (simp add: funpow_gmul)
  also have "\<dots> = (dbl f ^^ lg f c) (gmul f a b)" by (simp only: gmul_commute[of f b a])
  also have "\<dots> = gmul f (gmul f a b) c"
    using gmul_funpow[OF assms(1) byte_gmul[OF assms(1,2,3)] assms(4) False] by simp
  finally show ?thesis by simp
qed

lemma gmul_1_right: 
  assumes "proper_GF256 f" "byte a" shows "gmul f a 1 = a"
proof (cases "a = 0")
  case True then show ?thesis by simp
next
  case False
  have "gmul f a 1 = gmul f 1 a" by (rule gmul_commute)
  also have "\<dots> = (dbl f ^^ lg f a) 1" using assms False by (simp add: gmul_funpow)
  finally show ?thesis using funpow_lg[OF assms False] by simp
qed

lemma gmul_1_left: "proper_GF256 f \<Longrightarrow> byte a \<Longrightarrow> gmul f 1 a = a"
  using gmul_1_right[of f a] by (simp add: gmul_commute[of f 1 a])

lemma funpow_255:
  assumes "proper_GF256 f" "byte a" shows "(dbl f ^^ 255) a = a"
proof (cases "a = 0")
  case True then show ?thesis by simp
next
  case False
  have "(dbl f ^^ 255) a = (dbl f ^^ 255) ((dbl f ^^ lg f a) 1)"
    using funpow_lg[OF assms False] by simp
  also have "\<dots> = (dbl f ^^ (255 + lg f a)) 1" by (simp add: funpow_add)
  also have "\<dots> = (dbl f ^^ (lg f a + 255)) 1" by (simp only: add.commute)
  also have "\<dots> = (dbl f ^^ lg f a) ((dbl f ^^ 255) 1)" by (simp only: funpow_add o_apply)
  finally show ?thesis using funpow_lg[OF assms False] assms(1) by (simp add: proper_cycle)
qed

lemma gmul_nonzero:
  assumes "proper_GF256 f" "byte a" "byte b" "a \<noteq> 0" "b \<noteq> 0"
  shows "gmul f a b \<noteq> 0"
proof
  assume z: "gmul f a b = 0"
  then have "(dbl f ^^ lg f b) a = 0" using assms by (simp add: gmul_funpow)
  then have "(dbl f ^^ (255 - lg f b)) ((dbl f ^^ lg f b) a) = 0" by simp
  then have "(dbl f ^^ ((255 - lg f b) + lg f b)) a = 0" by (simp only: funpow_add o_apply)
  moreover have "lg f b < 255" using proper_log(4)[OF assms(1,3,5)] .
  ultimately have "(dbl f ^^ 255) a = 0" by simp
  then show False using funpow_255[OF assms(1,2)] assms(4) by simp
qed

lemma inverse_GF_Num:
  assumes "proper_GF256 f" "byte a" "a \<noteq> 0"
  shows "inverse_GF f (Num a) = Inr (Num (exp_table f ! (255 - lg f a)))"
proof -
  let ?la = "log_table f ! nat a"
  have la: "0 \<le> ?la" "?la < 255" using proper_log[OF assms] by auto
  have a: "at (log_table f) (Num a) = Num ?la"
    using assms(2) proper_length_log[OF assms(1)] by (auto simp: byte_def)
  have n: "nat (255 - ?la) = 255 - lg f a" using la by (simp add: lg_def nat_diff_distrib)
  have r: "0 \<le> 255 - ?la" "255 - ?la < 256" using la by auto
  show ?thesis
    unfolding inverse_GF_def a
    using assms(3) r proper_size[OF assms(1)] proper_length_exp[OF assms(1)]
    by (simp add: n)
qed

lemma gmul_inverse:
  assumes "proper_GF256 f" "byte a" "a \<noteq> 0"
  shows "gmul f a (exp_table f ! (255 - lg f a)) = 1"
    and "byte (exp_table f ! (255 - lg f a))"
    and "exp_table f ! (255 - lg f a) \<noteq> 0"
proof -
  let ?v = "exp_table f ! (255 - lg f a)"
  have l: "lg f a < 255" using proper_log(4)[OF assms] .
  have v: "?v = (dbl f ^^ (255 - lg f a)) 1" using assms(1) by (simp add: proper_exp_nth)
  show bv: "byte ?v" unfolding v by (simp add: byte_funpow)
  have "(dbl f ^^ lg f a) ?v = (dbl f ^^ (lg f a + (255 - lg f a))) 1"
    unfolding v by (simp only: funpow_add o_apply)
  also have "\<dots> = 1" using l assms(1) by (simp add: proper_cycle)
  finally have c: "(dbl f ^^ lg f a) ?v = 1" .
  then show "?v \<noteq> 0" by auto
  have "gmul f a ?v = gmul f ?v a" by (rule gmul_commute)
  also have "\<dots> = (dbl f ^^ lg f a) ?v" using gmul_funpow[OF assms(1) bv assms(2,3)] .
  finally show "gmul f a ?v = 1" using c by simp
qed



section \<open>Polynomial operations on byte arrays\<close>

definition bytes :: "int list \<Rightarrow> bool" where
  "bytes xs \<longleftrightarrow> list_all byte xs"

definition strip_zeros :: "int list \<Rightarrow> int list" where
  "strip_zeros cs =
     (if length cs > 1 \<and> hd cs = 0 then
        (let rest = dropWhile (\<lambda>c. c = 0) (tl cs) in if rest = [] then [0] else rest)
      else cs)"

definition product_array :: "Generic_GF \<Rightarrow> int list \<Rightarrow> int list \<Rightarrow> int list" where
  "product_array f a b =
     fold (\<lambda>i product.
        fold (\<lambda>j product.
           set_at product (int (i + j))
             (add_or_subtract_GF (Num (product ! (i + j)))
                (multiply_GF f (Num (a ! i)) (Num (b ! j)))))
          [0..<length b] product)
       [0..<length a] (replicate (length a + length b - 1) 0)"

definition pmul :: "Generic_GF \<Rightarrow> int list \<Rightarrow> int list \<Rightarrow> int list" where
  "pmul f a b = (if is_zero a \<or> is_zero b then [0] else strip_zeros (product_array f a b))"

fun generator :: "Generic_GF \<Rightarrow> nat \<Rightarrow> int list" where
  "generator f 0 = [1]"
| "generator f (Suc d) =
     pmul f (generator f d) [1, to_int32 (exp_GF f (Num (int d + generator_base f)))]"

lemma Generic_GF_Poly_eq: "cs \<noteq> [] \<Longrightarrow> Generic_GF_Poly cs = Inr (strip_zeros cs)"
  by (simp add: Generic_GF_Poly_def strip_zeros_def Let_def)

lemma bytes_simps [simp]:
  "bytes []" "bytes (x # xs) \<longleftrightarrow> byte x \<and> bytes xs" "bytes (xs @ ys) \<longleftrightarrow> bytes xs \<and> bytes ys"
  "bytes (replicate n 0)"
  by (auto simp: bytes_def list_all_iff)

lemma bytes_nth: "bytes xs \<Longrightarrow> i < length xs \<Longrightarrow> byte (xs ! i)"
  by (simp add: bytes_def list_all_length)

lemma bytes_take: "bytes xs \<Longrightarrow> bytes (take n xs)"
  and bytes_drop: "bytes xs \<Longrightarrow> bytes (drop n xs)"
  and bytes_dropWhile: "bytes xs \<Longrightarrow> bytes (dropWhile P xs)"
  by (auto simp: bytes_def list_all_iff dest: in_set_takeD in_set_dropD set_dropWhileD)

lemma bytes_tl: "bytes xs \<Longrightarrow> bytes (tl xs)"
  by (cases xs) simp_all

lemma bytes_hd: "bytes xs \<Longrightarrow> xs \<noteq> [] \<Longrightarrow> byte (hd xs)"
  by (cases xs) simp_all

lemma bytes_update: "bytes xs \<Longrightarrow> byte v \<Longrightarrow> bytes (xs[i := v])"
  by (auto simp: bytes_def list_all_iff dest!: set_update_subset_insert[THEN subsetD])

lemma bytes_set_at: "bytes xs \<Longrightarrow> byte v \<Longrightarrow> bytes (set_at xs i v)"
  by (simp add: set_at_def bytes_update)

lemma length_set_at [simp]: "length (set_at xs i v) = length xs"
  by (simp add: set_at_def)

lemma bytes_map2_xor: "bytes xs \<Longrightarrow> bytes ys \<Longrightarrow> bytes (map2 (XOR) xs ys)"
  by (auto simp: bytes_def list_all_iff intro!: byte_xor dest: set_zip_leftD set_zip_rightD)

lemma strip_zeros_nonempty: "cs \<noteq> [] \<Longrightarrow> strip_zeros cs \<noteq> []"
  by (simp add: strip_zeros_def Let_def)

lemma bytes_strip_zeros: "bytes cs \<Longrightarrow> bytes (strip_zeros cs)"
  by (simp add: strip_zeros_def Let_def bytes_dropWhile bytes_tl)

lemma length_strip_zeros: "cs \<noteq> [] \<Longrightarrow> length (strip_zeros cs) \<le> length cs"
proof -
  have "length (dropWhile (\<lambda>c. c = 0) (tl cs)) \<le> length (tl cs)" by (rule length_dropWhile_le)
  moreover assume "cs \<noteq> []"
  ultimately show ?thesis by (cases cs) (auto simp: strip_zeros_def Let_def)
qed

lemma strip_zeros_hd0:
  assumes "cs \<noteq> []" "hd cs = 0"
  shows "strip_zeros cs = [0] \<or> (length (strip_zeros cs) < length cs \<and> hd (strip_zeros cs) \<noteq> 0)"
proof (cases "length cs > 1")
  case False
  with assms show ?thesis by (cases cs) (auto simp: strip_zeros_def)
next
  case True
  let ?r = "dropWhile (\<lambda>c. c = 0) (tl cs)"
  have l: "length ?r \<le> length (tl cs)" by (rule length_dropWhile_le)
  show ?thesis
  proof (cases "?r = []")
    case True
    with \<open>length cs > 1\<close> assms show ?thesis by (simp add: strip_zeros_def)
  next
    case False
    then have "hd ?r \<noteq> 0" using hd_dropWhile[of "\<lambda>c. c = 0" "tl cs"] by simp
    with False True assms l show ?thesis by (cases cs) (auto simp: strip_zeros_def Let_def)
  qed
qed

lemma strip_zeros_id: "hd cs \<noteq> 0 \<Longrightarrow> strip_zeros cs = cs"
  by (simp add: strip_zeros_def)

lemma strip_zeros_normal: "cs \<noteq> [] \<Longrightarrow> strip_zeros cs = [0] \<or> hd (strip_zeros cs) \<noteq> 0"
  using strip_zeros_hd0[of cs] strip_zeros_id[of cs] by (cases "hd cs = 0") auto

lemma is_zero_iff: "p \<noteq> [] \<Longrightarrow> is_zero p \<longleftrightarrow> hd p = 0"
  by (cases p) (simp_all add: is_zero_def)

lemma get_coefficient_degree: "p \<noteq> [] \<Longrightarrow> get_coefficient p (degree p) = Num (hd p)"
  by (cases p) (simp_all add: get_coefficient_def degree_def)


definition div_term :: "Generic_GF \<Rightarrow> int list \<Rightarrow> int \<Rightarrow> int list \<Rightarrow> int list" where
  "div_term f other dlt_inverse r =
     map (\<lambda>c. gmul f c (gmul f (hd r) dlt_inverse)) other @ replicate (length r - length other) 0"

definition div_rem :: "Generic_GF \<Rightarrow> int list \<Rightarrow> int \<Rightarrow> int list \<Rightarrow> int list" where
  "div_rem f other dlt_inverse r = strip_zeros (map2 (XOR) r (div_term f other dlt_inverse r))"

lemma multiply_by_monomial_Num:
  assumes "this \<noteq> []" "0 \<le> d" "c \<noteq> 0"
  shows "multiply_by_monomial f this d (Num c) =
           Inr (strip_zeros (map (\<lambda>x. gmul f x c) this @ replicate (nat d) 0))"
  using assms by (simp add: multiply_by_monomial_def Generic_GF_Poly_eq gmul_def)

lemma build_monomial_Num:
  assumes "0 \<le> d" "c \<noteq> 0"
  shows "build_monomial d (Num c) = Inr (c # replicate (nat d) 0)"
  using assms by (simp add: build_monomial_def Generic_GF_Poly_eq strip_zeros_id)

lemma inplace_xor_take:
  "k \<le> length s \<Longrightarrow> length t = length s \<Longrightarrow>
   fold (\<lambda>i s. set_at s (int i) (s ! i XOR t ! i)) [0..<k] s
     = map2 (XOR) (take k s) (take k t) @ drop k s"
proof (induction k)
  case 0
  then show ?case by simp
next
  case (Suc k)
  let ?m = "map2 (XOR) (take k s) (take k t) @ drop k s"
  have k: "k < length s" "k < length t" using Suc.prems by auto
  have lm: "length (map2 (XOR) (take k s) (take k t)) = k" using k by simp
  have nk: "?m ! k = s ! k" using k by (simp add: nth_append)
  have "fold (\<lambda>i s. set_at s (int i) (s ! i XOR t ! i)) [0..<Suc k] s
          = set_at ?m (int k) (?m ! k XOR t ! k)"
    using Suc by simp
  also have "\<dots> = ?m[k := s ! k XOR t ! k]" using k by (simp add: set_at_def nk)
  also have "\<dots> = map2 (XOR) (take k s) (take k t) @ (drop k s)[0 := s ! k XOR t ! k]"
    using lm by (simp add: list_update_append)
  also have "(drop k s)[0 := s ! k XOR t ! k] = (s ! k XOR t ! k) # drop (Suc k) s"
    using k by (simp add: Cons_nth_drop_Suc[symmetric])
  also have "map2 (XOR) (take k s) (take k t) @ (s ! k XOR t ! k) # drop (Suc k) s
          = map2 (XOR) (take (Suc k) s) (take (Suc k) t) @ drop (Suc k) s"
    using k by (simp add: take_Suc_conv_app_nth)
  finally show ?case .
qed

lemma inplace_xor:
  "length t = length s \<Longrightarrow>
   fold (\<lambda>i s. set_at s (int i) (s ! i XOR t ! i)) [0..<length t] s = map2 (XOR) s t"
  using inplace_xor_take[of "length s" s t] by simp

lemma add_or_subtract_buf_same_length:
  assumes "this \<noteq> []" "hd this \<noteq> 0" "hd other \<noteq> 0" "length other = length this"
  shows "add_or_subtract_buf this other = Inr (strip_zeros (map2 (XOR) this other))"
proof -
  have o: "other \<noteq> []" using assms by auto
  have z: "\<not> is_zero this" "\<not> is_zero other" using assms o by (simp_all add: is_zero_iff)
  have m: "map2 (XOR) this other \<noteq> []" using assms o by (cases this; cases other) auto
  show ?thesis
    using z assms(4) m inplace_xor[of other this]
    by (simp add: add_or_subtract_buf_def Generic_GF_Poly_eq)
qed

lemma add_or_subtract_buf_longer:
  assumes "this \<noteq> []" "hd this \<noteq> 0" "other \<noteq> []" "hd other \<noteq> 0" "length other < length this"
  shows "add_or_subtract_buf this other =
           Inr (take (length this - length other) this
                  @ map2 (XOR) other (drop (length this - length other) this))"
proof -
  let ?ld = "length this - length other"
  have z: "\<not> is_zero this" "\<not> is_zero other" using assms by (simp_all add: is_zero_iff)
  have h: "hd (take ?ld this @ map2 (XOR) other (drop ?ld this)) = hd this"
    using assms by (cases this) auto
  have n: "take ?ld this @ map2 (XOR) other (drop ?ld this) \<noteq> []" using assms by auto
  show ?thesis
    using z assms(5) n h assms(2)
    by (simp add: add_or_subtract_buf_def Let_def Generic_GF_Poly_eq strip_zeros_id)
qed

lemma divide_step_ok:
  assumes pf: "proper_GF256 f"
    and oth: "other \<noteq> []" "bytes other" "hd other \<noteq> 0"
    and inv: "byte dlt_inverse" "gmul f (hd other) dlt_inverse = 1"
    and r: "r \<noteq> []" "bytes r" "hd r \<noteq> 0" "length other \<le> length r"
    and q: "q \<noteq> []" "bytes q" "is_zero q \<or> length r - length other + 1 < length q"
  shows "\<exists>q'. divide_step f other (Num dlt_inverse) (q, r) = Inr (q', div_rem f other dlt_inverse r)
            \<and> q' \<noteq> [] \<and> bytes q' \<and> \<not> is_zero q' \<and> length r - length other + 1 \<le> length q'"
proof -
  let ?dd = "length r - length other"
  let ?s = "gmul f (hd r) dlt_inverse"
  have bh: "byte (hd r)" "byte (hd other)" using r oth by (auto intro: bytes_hd)
  have inz: "dlt_inverse \<noteq> 0" using inv(2) by auto
  have snz: "?s \<noteq> 0" using gmul_nonzero[OF pf bh(1) inv(1) r(3) inz] .
  have bs: "byte ?s" using byte_gmul[OF pf bh(1) inv(1)] .
  have deg: "degree r - degree other = int ?dd" using r(4) by (simp add: degree_def)
  have scale: "multiply_GF f (get_coefficient r (degree r)) (Num dlt_inverse) = Num ?s"
    using r(1) multiply_GF_Num[OF pf bh(1) inv(1)] by (simp add: get_coefficient_degree)
  let ?t = "div_term f other dlt_inverse r"
  have "gmul f (hd other) ?s = gmul f (gmul f (hd other) dlt_inverse) (hd r)"
    using gmul_assoc[OF pf bh(2) inv(1) bh(1)] by (simp add: gmul_commute[of f "hd r"])
  also have "\<dots> = hd r" using inv(2) gmul_1_left[OF pf bh(1)] by simp
  finally have lead: "gmul f (hd other) ?s = hd r" .
  have hdt: "hd ?t = hd r" using oth(1) lead by (cases other) (simp_all add: div_term_def)
  have lt: "length ?t = length r" using r(4) by (simp add: div_term_def)
  have tm: "multiply_by_monomial f other (int ?dd) (Num ?s) = Inr ?t"
    using multiply_by_monomial_Num[OF oth(1) _ snz, of "int ?dd" f] hdt r(3)
    by (simp add: div_term_def strip_zeros_id)
  have iq: "build_monomial (int ?dd) (Num ?s) = Inr (?s # replicate ?dd 0)"
    using build_monomial_Num[OF _ snz, of "int ?dd"] by simp
  have rem: "add_or_subtract_buf r ?t = Inr (div_rem f other dlt_inverse r)"
    using add_or_subtract_buf_same_length[OF r(1,3) _ lt] hdt r(3) by (simp add: div_rem_def)
  have "\<exists>q'. add_or_subtract_buf q (?s # replicate ?dd 0) = Inr q' \<and> q' \<noteq> [] \<and> bytes q'
           \<and> \<not> is_zero q' \<and> ?dd + 1 \<le> length q'"
  proof (cases "is_zero q")
    case True
    then show ?thesis using snz bs by (simp add: add_or_subtract_buf_def is_zero_iff)
  next
    case False
    then have hq: "hd q \<noteq> 0" and lq: "?dd + 1 < length q" using q by (auto simp: is_zero_iff)
    let ?q' = "take (length q - (?dd + 1)) q
                 @ map2 (XOR) (?s # replicate ?dd 0) (drop (length q - (?dd + 1)) q)"
    have e: "add_or_subtract_buf q (?s # replicate ?dd 0) = Inr ?q'"
      using add_or_subtract_buf_longer[OF q(1) hq _ _, of "?s # replicate ?dd 0"] snz lq by simp
    have b: "bytes ?q'" using q(2) bs by (auto intro!: bytes_map2_xor bytes_take bytes_drop)
    have h: "hd ?q' = hd q" using lq q(1) by (cases q) auto
    have n: "?q' \<noteq> []" using lq q(1) by auto
    have l: "length ?q' = length q" using lq by simp
    show ?thesis using e b h n l hq lq by (simp add: is_zero_iff)
  qed
  then obtain q' where q': "add_or_subtract_buf q (?s # replicate ?dd 0) = Inr q'"
      "q' \<noteq> []" "bytes q'" "\<not> is_zero q'" "?dd + 1 \<le> length q'" by blast
  have "divide_step f other (Num dlt_inverse) (q, r) = Inr (q', div_rem f other dlt_inverse r)"
    by (simp add: divide_step_def Let_def deg scale tm iq q'(1) rem)
  then show ?thesis using q' by blast
qed

lemma bytes_div_term:
  "proper_GF256 f \<Longrightarrow> bytes other \<Longrightarrow> byte dlt_inverse \<Longrightarrow> bytes r \<Longrightarrow> r \<noteq> [] \<Longrightarrow>
   bytes (div_term f other dlt_inverse r)"
  by (auto simp: div_term_def bytes_def list_all_iff intro!: byte_gmul bytes_hd[unfolded bytes_def list_all_iff])


lemma div_rem_props:
  assumes pf: "proper_GF256 f"
    and oth: "other \<noteq> []" "bytes other" "hd other \<noteq> 0"
    and inv: "byte dlt_inverse" "gmul f (hd other) dlt_inverse = 1"
    and r: "r \<noteq> []" "bytes r" "hd r \<noteq> 0" "length other \<le> length r"
  shows "div_rem f other dlt_inverse r \<noteq> []"
    and "bytes (div_rem f other dlt_inverse r)"
    and "is_zero (div_rem f other dlt_inverse r) \<or>
         length (div_rem f other dlt_inverse r) < length r"
proof -
  let ?t = "div_term f other dlt_inverse r"
  let ?x = "map2 (XOR) r ?t"
  have bh: "byte (hd r)" "byte (hd other)" using r oth by (auto intro: bytes_hd)
  have "gmul f (hd other) (gmul f (hd r) dlt_inverse) = gmul f (gmul f (hd other) dlt_inverse) (hd r)"
    using gmul_assoc[OF pf bh(2) inv(1) bh(1)] by (simp add: gmul_commute[of f "hd r"])
  also have "\<dots> = hd r" using inv(2) gmul_1_left[OF pf bh(1)] by simp
  finally have hdt: "hd ?t = hd r" using oth(1) by (cases other) (simp_all add: div_term_def)
  have lt: "length ?t = length r" using r(4) by (simp add: div_term_def)
  have tn: "?t \<noteq> []" using lt r(1) by auto
  have xn: "?x \<noteq> []" using r(1) tn by (cases r; cases ?t) auto
  have hx: "hd ?x = 0" using r(1) tn hdt by (cases r; cases ?t) auto
  have lx: "length ?x = length r" using lt by simp
  show "div_rem f other dlt_inverse r \<noteq> []"
    unfolding div_rem_def by (rule strip_zeros_nonempty[OF xn])
  show "bytes (div_rem f other dlt_inverse r)"
    unfolding div_rem_def
    by (intro bytes_strip_zeros bytes_map2_xor r bytes_div_term pf oth inv)
  show "is_zero (div_rem f other dlt_inverse r) \<or> length (div_rem f other dlt_inverse r) < length r"
    using strip_zeros_hd0[OF xn hx] lx by (auto simp: div_rem_def is_zero_def)
qed

lemma divide_loop_ok:
  assumes pf: "proper_GF256 f"
    and oth: "other \<noteq> []" "bytes other" "hd other \<noteq> 0"
    and inv: "byte dlt_inverse" "gmul f (hd other) dlt_inverse = 1"
    and step: "\<And>r. P r \<Longrightarrow> r \<noteq> [] \<Longrightarrow> bytes r \<Longrightarrow> hd r \<noteq> 0 \<Longrightarrow> length other \<le> length r \<Longrightarrow>
                 P (div_rem f other dlt_inverse r)"
  shows "r \<noteq> [] \<Longrightarrow> bytes r \<Longrightarrow> P r \<Longrightarrow> q \<noteq> [] \<Longrightarrow> bytes q \<Longrightarrow>
         (length other \<le> length r \<Longrightarrow> is_zero q \<or> length r - length other + 1 < length q) \<Longrightarrow>
         \<exists>q' r'. divide_loop f other (Num dlt_inverse) (q, r) = Some (Inr (q', r')) \<and>
                 r' \<noteq> [] \<and> bytes r' \<and> (length r' < length other \<or> is_zero r') \<and> P r'"
proof (induction "length r" arbitrary: q r rule: less_induct)
  case less
  let ?cond = "degree r \<ge> degree other \<and> \<not> is_zero r"
  show ?case
  proof (cases ?cond)
    case False
    then have nc: "\<not> (degree (snd (q, r)) \<ge> degree other \<and> \<not> is_zero (snd (q, r)))" by simp
    have "divide_loop f other (Num dlt_inverse) (q, r) = Some (Inr (q, r))"
      by (subst divide_loop.simps, simp only: nc if_False)
    moreover have "length r < length other \<or> is_zero r" using False by (auto simp: degree_def)
    ultimately show ?thesis using less.prems by blast
  next
    case True
    then have len: "length other \<le> length r" and hr: "hd r \<noteq> 0"
      using less.prems(1) by (auto simp: degree_def is_zero_iff)
    let ?r1 = "div_rem f other dlt_inverse r"
    obtain q1 where q1: "divide_step f other (Num dlt_inverse) (q, r) = Inr (q1, ?r1)"
        "q1 \<noteq> []" "bytes q1" "\<not> is_zero q1" "length r - length other + 1 \<le> length q1"
      using divide_step_ok[OF pf oth inv less.prems(1,2) hr len less.prems(4,5) less.prems(6)[OF len]]
      by blast
    have r1: "?r1 \<noteq> []" "bytes ?r1" "is_zero ?r1 \<or> length ?r1 < length r"
      using div_rem_props[OF pf oth inv less.prems(1,2) hr len] by auto
    have P1: "P ?r1" using step[OF less.prems(3,1,2) hr len] .
    have c: "degree (snd (q, r)) \<ge> degree other \<and> \<not> is_zero (snd (q, r))" using True by simp
    have unf: "divide_loop f other (Num dlt_inverse) (q, r)
                 = divide_loop f other (Num dlt_inverse) (q1, ?r1)"
      using True by (subst divide_loop.simps) (simp add: q1(1))
    show ?thesis
    proof (cases "is_zero ?r1")
      case True
      then have nc: "\<not> (degree (snd (q1, ?r1)) \<ge> degree other \<and> \<not> is_zero (snd (q1, ?r1)))" by simp
      have "divide_loop f other (Num dlt_inverse) (q1, ?r1) = Some (Inr (q1, ?r1))"
        by (subst divide_loop.simps, simp only: nc if_False)
      then show ?thesis using unf r1 P1 True by auto
    next
      case False
      then have l: "length ?r1 < length r" using r1(3) by blast
      have "length other \<le> length ?r1 \<Longrightarrow> is_zero q1 \<or> length ?r1 - length other + 1 < length q1"
        using l q1(5) by linarith
      from less.hyps[OF l r1(1,2) P1 q1(2,3) this] show ?thesis using unf by simp
    qed
  qed
qed

fun xsum :: "(nat \<Rightarrow> int) \<Rightarrow> nat \<Rightarrow> int" where
  "xsum g 0 = 0"
| "xsum g (Suc n) = xsum g n XOR g n"

definition conv_at :: "Generic_GF \<Rightarrow> int list \<Rightarrow> int list \<Rightarrow> nat \<Rightarrow> int" where
  "conv_at f a b k =
     xsum (\<lambda>i. if i \<le> k \<and> k < i + length b then gmul f (a ! i) (b ! (k - i)) else 0) (length a)"

lemma inner_loop_nth:
  assumes "i + n \<le> length p"
  shows "length (fold (\<lambda>j product. set_at product (int (i + j))
             (add_or_subtract_GF (Num (product ! (i + j))) (multiply_GF f (Num x) (Num (b ! j)))))
            [0..<n] p) = length p \<and>
         (\<forall>k<length p. fold (\<lambda>j product. set_at product (int (i + j))
             (add_or_subtract_GF (Num (product ! (i + j))) (multiply_GF f (Num x) (Num (b ! j)))))
            [0..<n] p ! k = (if i \<le> k \<and> k < i + n then p ! k XOR gmul f x (b ! (k - i)) else p ! k))"
  using assms
proof (induction n)
  case 0
  then show ?case by simp
next
  case (Suc n)
  let ?F = "\<lambda>j product. set_at product (int (i + j))
             (add_or_subtract_GF (Num (product ! (i + j))) (multiply_GF f (Num x) (Num (b ! j))))"
  define P where "P = fold ?F [0..<n] p"
  have ih: "length P = length p"
    "\<And>k. k < length p \<Longrightarrow> P ! k = (if i \<le> k \<and> k < i + n then p ! k XOR gmul f x (b ! (k - i)) else p ! k)"
    using Suc by (auto simp: P_def)
  have in_range: "i + n < length P" using Suc.prems ih(1) by simp
  have "fold ?F [0..<Suc n] p = ?F n P" by (simp add: P_def)
  also have "\<dots> = P[i + n := P ! (i + n) XOR gmul f x (b ! n)]"
    using in_range by (simp add: set_at_def add_or_subtract_GF_def gmul_def nat_int_add)
  finally have step: "fold ?F [0..<Suc n] p = P[i + n := P ! (i + n) XOR gmul f x (b ! n)]" .
  show ?case
  proof (intro conjI allI impI)
    show "length (fold ?F [0..<Suc n] p) = length p" by (simp only: step length_list_update ih(1))
  next
    fix k assume k: "k < length p"
    show "fold ?F [0..<Suc n] p ! k =
            (if i \<le> k \<and> k < i + Suc n then p ! k XOR gmul f x (b ! (k - i)) else p ! k)"
    proof (cases "k = i + n")
      case True
      then show ?thesis using in_range ih(2)[OF k] unfolding step by simp
    next
      case False
      then show ?thesis using k ih(1) ih(2)[OF k] unfolding step by auto
    qed
  qed
qed

lemma outer_loop_nth:
  assumes "n \<le> length a" "length p = length a + length b - 1" "b \<noteq> []"
  shows "length (fold (\<lambda>i product.
            fold (\<lambda>j product. set_at product (int (i + j))
               (add_or_subtract_GF (Num (product ! (i + j)))
                  (multiply_GF f (Num (a ! i)) (Num (b ! j)))))
              [0..<length b] product) [0..<n] p) = length p \<and>
         (\<forall>k<length p. fold (\<lambda>i product.
            fold (\<lambda>j product. set_at product (int (i + j))
               (add_or_subtract_GF (Num (product ! (i + j)))
                  (multiply_GF f (Num (a ! i)) (Num (b ! j)))))
              [0..<length b] product) [0..<n] p ! k
            = p ! k XOR xsum (\<lambda>i. if i \<le> k \<and> k < i + length b
                                  then gmul f (a ! i) (b ! (k - i)) else 0) n)"
  using assms(1)
proof (induction n)
  case 0
  then show ?case by simp
next
  case (Suc n)
  let ?I = "\<lambda>i product. fold (\<lambda>j product. set_at product (int (i + j))
               (add_or_subtract_GF (Num (product ! (i + j)))
                  (multiply_GF f (Num (a ! i)) (Num (b ! j)))))
              [0..<length b] product"
  let ?p = "fold ?I [0..<n] p"
  let ?g = "\<lambda>k i. if i \<le> k \<and> k < i + length b then gmul f (a ! i) (b ! (k - i)) else 0"
  have ih: "length ?p = length p" "\<And>k. k < length p \<Longrightarrow> ?p ! k = p ! k XOR xsum (?g k) n"
    using Suc by auto
  have r: "n + length b \<le> length ?p" using Suc.prems assms(2,3) ih(1) by (cases b) auto
  note inner = inner_loop_nth[OF r, of f "a ! n" b]
  have step: "fold ?I [0..<Suc n] p = ?I n ?p" by simp
  show ?case
  proof (intro conjI allI impI)
    show "length (fold ?I [0..<Suc n] p) = length p" using inner ih(1) by (simp only: step)
  next
    fix k assume k: "k < length p"
    then have k': "k < length ?p" using ih(1) by simp
    have "fold ?I [0..<Suc n] p ! k = (if n \<le> k \<and> k < n + length b
              then ?p ! k XOR gmul f (a ! n) (b ! (k - n)) else ?p ! k)"
      using inner k' by (simp only: step)
    also have "\<dots> = p ! k XOR xsum (?g k) (Suc n)"
      using ih(2)[OF k] by (simp add: ac_simps)
    finally show "fold ?I [0..<Suc n] p ! k = p ! k XOR xsum (?g k) (Suc n)" .
  qed
qed

lemma product_array_eq:
  assumes "a \<noteq> []" "b \<noteq> []"
  shows "product_array f a b = map (conv_at f a b) [0..<length a + length b - 1]"
proof (rule nth_equalityI)
  note o = outer_loop_nth[OF le_refl _ assms(2), of "replicate (length a + length b - 1) 0" a f]
  show "length (product_array f a b) = length (map (conv_at f a b) [0..<length a + length b - 1])"
    using o by (simp add: product_array_def)
  fix k assume "k < length (product_array f a b)"
  then have k: "k < length a + length b - 1" using o by (simp add: product_array_def)
  then show "product_array f a b ! k = map (conv_at f a b) [0..<length a + length b - 1] ! k"
    using o by (simp add: product_array_def conv_at_def)
qed

lemma xsum_0: "(\<And>i. i < n \<Longrightarrow> g i = 0) \<Longrightarrow> xsum g n = 0"
  by (induction n) simp_all

lemma xsum_first: "0 < n \<Longrightarrow> (\<And>i. 0 < i \<Longrightarrow> i < n \<Longrightarrow> g i = 0) \<Longrightarrow> xsum g n = g 0"
proof (induction n)
  case 0
  then show ?case by simp
next
  case (Suc n)
  then show ?case by (cases "n = 0") simp_all
qed

lemma byte_xsum: "(\<And>i. i < n \<Longrightarrow> byte (g i)) \<Longrightarrow> byte (xsum g n)"
  by (induction n) (simp_all add: byte_xor)

lemma length_product_array: "a \<noteq> [] \<Longrightarrow> b \<noteq> [] \<Longrightarrow> length (product_array f a b) = length a + length b - 1"
  by (simp add: product_array_eq)

lemma bytes_product_array:
  assumes "proper_GF256 f" "a \<noteq> []" "b \<noteq> []" "bytes a" "bytes b"
  shows "bytes (product_array f a b)"
proof -
  have "byte (conv_at f a b k)" for k
    unfolding conv_at_def using assms
    by (intro byte_xsum) (auto intro!: byte_gmul bytes_nth)
  then show ?thesis by (simp add: product_array_eq[OF assms(2,3)] bytes_def list_all_iff)
qed

lemma hd_product_array:
  assumes "a \<noteq> []" "b \<noteq> []"
  shows "hd (product_array f a b) = gmul f (hd a) (hd b)"
proof -
  have l: "0 < length a + length b - 1" using assms by (cases a; cases b) auto
  have "hd (product_array f a b) = conv_at f a b 0"
    using l by (simp add: product_array_eq[OF assms] hd_map upt_conv_Cons)
  also have "\<dots> = gmul f (a ! 0) (b ! 0)"
    unfolding conv_at_def using assms by (subst xsum_first) auto
  finally show ?thesis using assms by (simp add: hd_conv_nth)
qed

lemma multiply_poly_eq:
  assumes "a \<noteq> []" "b \<noteq> []"
  shows "multiply_poly f a b = Inr (pmul f a b)"
proof -
  have "length (product_array f a b) \<noteq> 0"
    using assms by (cases a; cases b) (simp_all add: length_product_array)
  then have ne: "product_array f a b \<noteq> []" by auto
  show ?thesis
    unfolding multiply_poly_def pmul_def product_array_def[symmetric]
    using Generic_GF_Poly_eq[OF ne] by simp
qed

section \<open>The encoder returns\<close>

definition wf_encoder :: "RS_Encoder \<Rightarrow> bool" where
  "wf_encoder enc \<longleftrightarrow>
     proper_GF256 (field_of enc) \<and> cached_generators enc \<noteq> [] \<and>
     cached_generators enc
       = map (generator (field_of enc)) [0..<length (cached_generators enc)]"

definition encode_remainder :: "Generic_GF \<Rightarrow> int list \<Rightarrow> nat \<Rightarrow> int list" where
  "encode_remainder f d ec =
     (case divide f (strip_zeros (strip_zeros d @ replicate ec 0)) (generator f ec) of
        Some (Inr (q, r)) \<Rightarrow> r
      | _ \<Rightarrow> [])"

lemma byte_exp_GF: "proper_GF256 f \<Longrightarrow> byte (to_int32 (exp_GF f a))"
proof (cases a)
  case (Num i)
  assume pf: "proper_GF256 f"
  show ?thesis
  proof (cases "0 \<le> i \<and> i < 256")
    case True
    then have "nat i < 256" by auto
    then show ?thesis using pf True Num by (simp add: exp_GF_def proper_exp_nth byte_funpow)
  next
    case False
    then show ?thesis using pf Num by (auto simp: exp_GF_def)
  qed
next
  case Undefined
  then show ?thesis by (simp add: exp_GF_def)
qed

lemma generator_props:
  assumes pf: "proper_GF256 f"
  shows "generator f d \<noteq> [] \<and> bytes (generator f d) \<and> hd (generator f d) = 1 \<and>
         length (generator f d) = d + 1"
proof (induction d)
  case 0
  then show ?case by simp
next
  case (Suc d)
  let ?g = "generator f d"
  let ?m = "[1, to_int32 (exp_GF f (Num (int d + generator_base f)))]"
  have g: "?g \<noteq> []" "bytes ?g" "hd ?g = 1" "length ?g = d + 1" using Suc by auto
  have m: "?m \<noteq> []" "bytes ?m" using byte_exp_GF[OF pf] by simp_all
  have nz: "\<not> is_zero ?g" "\<not> is_zero ?m" using g by (simp_all add: is_zero_iff)
  have h: "hd (product_array f ?g ?m) = 1"
    using hd_product_array[OF g(1) m(1), of f] g(3) gmul_1_left[OF pf byte_1] by simp
  have l: "length (product_array f ?g ?m) = d + 2"
    using length_product_array[OF g(1) m(1), of f] g(4) by simp
  have e: "generator f (Suc d) = product_array f ?g ?m"
    using nz h by (simp add: pmul_def strip_zeros_id)
  have ne: "product_array f ?g ?m \<noteq> []" using l by auto
  show ?case using h l ne bytes_product_array[OF pf g(1) m(1) g(2) m(2)] by (simp only: e) simp
qed

lemma generator_loop_ok:
  assumes pf: "proper_GF256 f"
  shows "0 < n \<Longrightarrow> generator_loop f (map (generator f) [0..<n]) (generator f (n - 1)) (int n) k
           = (None, map (generator f) [0..<n + k])"
proof (induction k arbitrary: n)
  case 0
  then show ?case by simp
next
  case (Suc k)
  let ?c = "to_int32 (exp_GF f (Num (int n - 1 + generator_base f)))"
  have c: "int n - 1 + generator_base f = int (n - 1) + generator_base f" using Suc.prems by simp
  have m: "Generic_GF_Poly [1, ?c] = Inr [1, ?c]" by (simp add: Generic_GF_Poly_eq strip_zeros_id)
  have g: "generator f (n - 1) \<noteq> []" using generator_props[OF pf] by blast
  have "pmul f (generator f (n - 1)) [1, ?c] = generator f (Suc (n - 1))"
    by (simp only: generator.simps c)
  then have p: "multiply_poly f (generator f (n - 1)) [1, ?c] = Inr (generator f n)"
    using multiply_poly_eq[OF g, of "[1, ?c]" f] Suc.prems by simp
  have "generator_loop f (map (generator f) [0..<n]) (generator f (n - 1)) (int n) (Suc k)
          = generator_loop f (map (generator f) [0..<Suc n]) (generator f (Suc n - 1)) (int (Suc n)) k"
    using m p by (simp add: add.commute[of "int n" 1])
  also have "\<dots> = (None, map (generator f) [0..<Suc n + k])" using Suc.IH[of "Suc n"] by simp
  finally show ?case by simp
qed

lemma build_generator_ok:
  assumes wf: "wf_encoder enc" and d: "0 \<le> d"
  shows "\<exists>enc'. build_generator enc d = (Inr (Some (generator (field_of enc) (nat d))), enc') \<and>
               wf_encoder enc' \<and> field_of enc' = field_of enc"
proof -
  let ?f = "field_of enc" and ?c = "cached_generators enc"
  let ?n = "length ?c"
  have pf: "proper_GF256 ?f" and ne: "?c \<noteq> []" and c: "?c = map (generator ?f) [0..<?n]"
    using wf by (auto simp: wf_encoder_def)
  have n: "0 < ?n" using ne by simp
  have lst: "last ?c = generator ?f (?n - 1)"
    using ne n by (subst c) (simp add: last_map last_upt del: upt_Suc)
  show ?thesis
  proof (cases "d \<ge> int ?n")
    case True
    let ?k = "nat (d + 1 - int ?n)"
    have gl: "generator_loop ?f ?c (last ?c) (int ?n) ?k = (None, map (generator ?f) [0..<?n + ?k])"
      using generator_loop_ok[OF pf n, of ?k] c lst by simp
    have nk: "?n + ?k = nat d + 1" using True by simp
    let ?enc' = "enc\<lparr>cached_generators := map (generator ?f) [0..<nat d + 1]\<rparr>"
    have "build_generator enc d = (Inr (Some (generator ?f (nat d))), ?enc')"
      using ne True d by (simp add: build_generator_def Let_def gl nk nth_append del: upt_Suc)
    moreover have "wf_encoder ?enc'" using pf by (simp add: wf_encoder_def del: upt_Suc)
    ultimately show ?thesis by auto
  next
    case False
    then have dn: "nat d < ?n" using d by simp
    have "?c ! nat d = generator ?f (nat d)" using dn by (subst c) (simp del: upt_Suc)
    then have "build_generator enc d = (Inr (Some (generator ?f (nat d))), enc)"
      using ne False d dn by (simp add: build_generator_def Let_def)
    then show ?thesis using wf by auto
  qed
qed

lemma divide_generator_inv:
  assumes pf: "proper_GF256 f" and i: "info \<noteq> []" "bytes info" "info = [0] \<or> hd info \<noteq> 0"
    and ec: "0 < ec"
    and Q: "Q info"
    and Qstep: "\<And>r. Q r \<Longrightarrow> r \<noteq> [] \<Longrightarrow> bytes r \<Longrightarrow> hd r \<noteq> 0 \<Longrightarrow>
                  length (generator f ec) \<le> length r \<Longrightarrow>
                  Q (div_rem f (generator f ec) (exp_table f ! (255 - lg f 1)) r)"
  shows "\<exists>q r. divide f info (generator f ec) = Some (Inr (q, r)) \<and> r \<noteq> [] \<and> bytes r \<and>
               length r \<le> ec \<and> Q r"
proof -
  let ?g = "generator f ec"
  have g: "?g \<noteq> []" "bytes ?g" "hd ?g = 1" "length ?g = ec + 1"
    using generator_props[OF pf, of ec] by auto
  have nz: "\<not> is_zero ?g" "hd ?g \<noteq> 0" using g by (simp_all add: is_zero_iff)
  let ?v = "exp_table f ! (255 - lg f 1)"
  have v: "inverse_GF f (Num 1) = Inr (Num ?v)" "byte ?v" "gmul f 1 ?v = 1"
    using inverse_GF_Num[OF pf byte_1] gmul_inverse[OF pf byte_1] by simp_all
  have d: "divide f info ?g = divide_loop f ?g (Num ?v) ([0], info)"
    using nz g(1,3) v(1) by (simp add: divide_def get_coefficient_degree)
  let ?P = "\<lambda>r. (r = [0] \<or> hd r \<noteq> 0) \<and> Q r"
  have step: "\<And>r. ?P r \<Longrightarrow> r \<noteq> [] \<Longrightarrow> bytes r \<Longrightarrow> hd r \<noteq> 0 \<Longrightarrow> length ?g \<le> length r \<Longrightarrow>
                 ?P (div_rem f ?g ?v r)"
  proof -
    fix r :: "int list"
    assume r: "?P r" "r \<noteq> []" "bytes r" "hd r \<noteq> 0" "length ?g \<le> length r"
    then have "length (map2 (XOR) r (div_term f ?g ?v r)) \<noteq> 0"
      by (simp add: div_term_def)
    then have "map2 (XOR) r (div_term f ?g ?v r) \<noteq> []" by (simp only: length_0_conv not_False_eq_True)
    then have "div_rem f ?g ?v r = [0] \<or> hd (div_rem f ?g ?v r) \<noteq> 0"
      unfolding div_rem_def by (rule strip_zeros_normal)
    moreover have "Q (div_rem f ?g ?v r)" using Qstep[OF _ r(2-5)] r(1) by blast
    ultimately show "?P (div_rem f ?g ?v r)" by blast
  qed
  have P0: "?P info" using i(3) Q by blast
  have "\<exists>q' r'. divide_loop f ?g (Num ?v) ([0], info) = Some (Inr (q', r')) \<and>
                 r' \<noteq> [] \<and> bytes r' \<and> (length r' < length ?g \<or> is_zero r') \<and> ?P r'"
    using g(3) v(3)
    by (intro divide_loop_ok[where P = ?P, OF pf g(1,2) nz(2) v(2) _ step i(1,2) P0])
       (simp_all add: is_zero_def)
  then obtain q' r' where r': "divide_loop f ?g (Num ?v) ([0], info) = Some (Inr (q', r'))"
      "r' \<noteq> []" "bytes r'" "length r' < length ?g \<or> is_zero r'" "?P r'" by blast
  have "length r' \<le> ec"
  proof (cases "is_zero r'")
    case True
    then have "r' = [0]" using r'(2,5) by (auto simp: is_zero_iff)
    then show ?thesis using ec by simp
  next
    case False
    then show ?thesis using r'(4) g(4) by simp
  qed
  then show ?thesis using d r' by auto
qed

lemma divide_generator_ok:
  assumes pf: "proper_GF256 f" and i: "info \<noteq> []" "bytes info" "info = [0] \<or> hd info \<noteq> 0"
    and ec: "0 < ec"
  shows "\<exists>q r. divide f info (generator f ec) = Some (Inr (q, r)) \<and> r \<noteq> [] \<and> bytes r \<and>
               length r \<le> ec"
  using divide_generator_inv[where Q = "\<lambda>r. True", OF pf i ec] by simp

lemma write_parity_ok:
  assumes "length coefficients \<le> nat ec_bytes" "0 < data_bytes"
    "int (length data) = data_bytes + ec_bytes" "0 \<le> ec_bytes"
  shows "write_parity data data_bytes ec_bytes coefficients
           = (None, take (nat data_bytes) data
                      @ replicate (nat ec_bytes - length coefficients) 0 @ coefficients)"
proof -
  let ?nz = "nat ec_bytes - length coefficients"
  have zero_fill: "k \<le> ?nz \<Longrightarrow>
      fold (\<lambda>i d. set_at d (data_bytes + int i) 0) [0..<k] data
        = take (nat data_bytes) data @ replicate k 0 @ drop (nat data_bytes + k) data" for k
  proof (induction k)
    case 0
    then show ?case by simp
  next
    case (Suc k)
    let ?d = "take (nat data_bytes) data @ replicate k 0 @ drop (nat data_bytes + k) data"
    have r: "nat data_bytes + k < length data" using Suc.prems assms by linarith
    have l: "length ?d = length data" using r by simp
    have "fold (\<lambda>i d. set_at d (data_bytes + int i) 0) [0..<Suc k] data
            = set_at ?d (data_bytes + int k) 0" using Suc by simp
    also have "\<dots> = ?d[nat data_bytes + k := 0]"
    proof -
      have "0 \<le> data_bytes + int k" "data_bytes + int k < int (length ?d)"
        "nat (data_bytes + int k) = nat data_bytes + k"
        using r l assms(2) by linarith+
      then show ?thesis by (simp only: set_at_def if_True simp_thms)
    qed
    also have "\<dots> = take (nat data_bytes) data @ replicate k 0
                       @ (drop (nat data_bytes + k) data)[0 := 0]"
      using r by (simp add: list_update_append)
    also have "(drop (nat data_bytes + k) data)[0 := 0] = 0 # drop (nat data_bytes + Suc k) data"
      using r by (simp add: Cons_nth_drop_Suc[symmetric])
    finally show ?case by (simp add: replicate_append_same)
  qed
  have nz: "nat (ec_bytes - int (length coefficients)) = ?nz" using assms(1) by linarith
  have off: "nat (data_bytes + (ec_bytes - int (length coefficients))) = nat data_bytes + ?nz"
    using assms by linarith
  have tot: "nat data_bytes + ?nz + length coefficients = length data" using assms by linarith
  let ?d1 = "take (nat data_bytes) data @ replicate ?nz 0 @ drop (nat data_bytes + ?nz) data"
  have l1: "length ?d1 = length data" using tot by simp
  have t1: "take (nat data_bytes + ?nz) ?d1 = take (nat data_bytes) data @ replicate ?nz 0"
    using tot by simp
  have d1: "drop (nat data_bytes + ?nz + length coefficients) ?d1 = []"
    using tot l1 by simp
  have c: "\<not> (data_bytes + (ec_bytes - int (length coefficients)) < 0 \<or>
              data_bytes + (ec_bytes - int (length coefficients)) + int (length coefficients)
                > int (length ?d1))"
    using assms l1 by linarith
  show ?thesis
    unfolding write_parity_def Let_def nz zero_fill[OF le_refl] off
    by (simp only: c if_False t1 d1 append_Nil2 append_assoc)
qed

lemma encode_ok:
  assumes wf: "wf_encoder enc" and ec: "1 \<le> ec_bytes" and db: "1 \<le> int (length data) - ec_bytes"
    and b: "bytes (take (nat (int (length data) - ec_bytes)) data)"
  shows "\<exists>enc' parity. encode enc data ec_bytes
            = Some (None, enc', take (nat (int (length data) - ec_bytes)) data @ parity) \<and>
          wf_encoder enc' \<and> field_of enc' = field_of enc \<and>
          enc' = snd (build_generator enc ec_bytes) \<and>
          length parity = nat ec_bytes \<and> bytes parity \<and>
          parity = replicate (nat ec_bytes - length (encode_remainder (field_of enc)
                                (take (nat (int (length data) - ec_bytes)) data) (nat ec_bytes))) 0
                   @ encode_remainder (field_of enc)
                       (take (nat (int (length data) - ec_bytes)) data) (nat ec_bytes)"
proof -
  let ?f = "field_of enc"
  let ?db = "int (length data) - ec_bytes"
  let ?d = "take (nat ?db) data"
  have pf: "proper_GF256 ?f" using wf by (simp add: wf_encoder_def)
  obtain enc' where enc': "build_generator enc ec_bytes = (Inr (Some (generator ?f (nat ec_bytes))), enc')"
      "wf_encoder enc'" "field_of enc' = ?f"
    using build_generator_ok[OF wf, of ec_bytes] ec by auto
  have dn: "?d \<noteq> []" using db ec by auto
  have ic: "take (nat ?db) data @ replicate (nat ?db - length data) 0 = ?d" using ec by simp
  let ?i0 = "strip_zeros ?d"
  have i0: "Generic_GF_Poly ?d = Inr ?i0" "?i0 \<noteq> []" "bytes ?i0"
    using dn b by (simp_all add: Generic_GF_Poly_eq strip_zeros_nonempty bytes_strip_zeros)
  have m1: "map (\<lambda>x. gmul ?f x 1) ?i0 = ?i0"
    using i0(3) by (intro map_idI) (auto simp: bytes_def list_all_iff gmul_1_right[OF pf])
  let ?info = "strip_zeros (?i0 @ replicate (nat ec_bytes) 0)"
  have info: "multiply_by_monomial ?f ?i0 ec_bytes (Num 1) = Inr ?info"
    using multiply_by_monomial_Num[OF i0(2), of ec_bytes 1 ?f] ec by (simp add: m1)
  have i: "?info \<noteq> []" "bytes ?info" "?info = [0] \<or> hd ?info \<noteq> 0"
    using i0(2,3) by (auto intro!: strip_zeros_nonempty bytes_strip_zeros strip_zeros_normal)
  obtain q r where r: "divide ?f ?info (generator ?f (nat ec_bytes)) = Some (Inr (q, r))"
      "r \<noteq> []" "bytes r" "length r \<le> nat ec_bytes"
    using divide_generator_ok[OF pf i, of "nat ec_bytes"] ec by auto
  have er: "encode_remainder ?f ?d (nat ec_bytes) = r"
    by (simp add: encode_remainder_def r(1))
  have wp: "write_parity data ?db ec_bytes r
              = (None, ?d @ replicate (nat ec_bytes - length r) 0 @ r)"
    using write_parity_ok[OF r(4), of ?db data] db ec by simp
  have "encode enc data ec_bytes = Some (None, enc', ?d @ replicate (nat ec_bytes - length r) 0 @ r)"
    using ec db by (simp add: encode_def Let_def enc'(1) ic i0(1) info r(1) wp)
  moreover have "length (replicate (nat ec_bytes - length r) 0 @ r) = nat ec_bytes"
    using r(4) by simp
  moreover have "bytes (replicate (nat ec_bytes - length r) 0 @ r)" using r(3) by simp
  moreover have "enc' = snd (build_generator enc ec_bytes)" by (simp add: enc'(1))
  ultimately show ?thesis using enc'(2,3) er by auto
qed

lemma wf_new_RS_Encoder: "proper_GF256 f \<Longrightarrow> wf_encoder (new_RS_Encoder f)"
  by (simp add: wf_encoder_def new_RS_Encoder_def)

lemma encode_remainder_zero:
  assumes pf: "proper_GF256 f" and "0 < n" "0 < ec"
  shows "encode_remainder f (replicate n 0) ec = [0]"
proof -
  have s: "strip_zeros (replicate k 0) = [0]" if "0 < k" for k
  proof (cases k)
    case 0
    with that show ?thesis by simp
  next
    case (Suc m)
    have "dropWhile (\<lambda>c. c = 0) (replicate m (0::int)) = []" by (induction m) simp_all
    then show ?thesis using Suc by (cases m) (simp_all add: strip_zeros_def)
  qed
  have i: "strip_zeros (strip_zeros (replicate n 0) @ replicate ec 0) = [0]"
    using s[of n] s[of "Suc ec"] assms by (simp add: replicate_app_Cons_same)
  let ?g = "generator f ec"
  have g: "?g \<noteq> []" "hd ?g = 1" "length ?g = ec + 1" using generator_props[OF pf, of ec] by auto
  have v: "inverse_GF f (Num 1) = Inr (Num (exp_table f ! (255 - lg f 1)))"
    using inverse_GF_Num[OF pf byte_1] by simp
  have nc: "\<not> (degree (snd ([0], [0])) \<ge> degree ?g \<and> \<not> is_zero (snd ([0], [0])))"
    by (simp add: is_zero_def)
  have "divide f [0] ?g = Some (Inr ([0], [0]))"
    using g v by (simp add: divide_def is_zero_iff get_coefficient_degree)
       (subst divide_loop.simps, simp only: nc if_False)
  then show ?thesis by (simp add: encode_remainder_def i)
qed


lemma parity_differs_on_known_vector:
  "map_option (\<lambda>(err, enc, buffer). drop 3 buffer)
     (encode (new_RS_Encoder GF_DATA_MATRIX_256) [142, 164, 186, 0, 0, 0, 0, 0] 5)
   \<noteq> map_option (\<lambda>(err, enc, buffer). drop 3 buffer)
       (encode (new_RS_Encoder GF_QR_CODE_256) [142, 164, 186, 0, 0, 0, 0, 0] 5)"
  by code_simp

section \<open>The field as a type\<close>

text \<open>
  The elements 0..255 as a type of their own, with XOR as addition; multiplication,
  inverse and powers stay functions of the field record.
\<close>

typedef gf = "{x::int. 0 \<le> x \<and> x < 256}"
  by (rule exI[of _ 0]) simp

setup_lifting type_definition_gf

instantiation gf :: ab_group_add
begin

lift_definition zero_gf :: gf is 0 by simp

lift_definition plus_gf :: "gf \<Rightarrow> gf \<Rightarrow> gf" is "\<lambda>a b. a XOR b"
  using byte_xor by (simp add: byte_def)

lift_definition uminus_gf :: "gf \<Rightarrow> gf" is "\<lambda>a. a" .

lift_definition minus_gf :: "gf \<Rightarrow> gf \<Rightarrow> gf" is "\<lambda>a b. a XOR b"
  using byte_xor by (simp add: byte_def)

instance
  by standard (transfer, simp add: ac_simps)+

end

lift_definition g1 :: gf is 1 by simp

lift_definition gm :: "Generic_GF \<Rightarrow> gf \<Rightarrow> gf \<Rightarrow> gf" is
  "\<lambda>f a b. if proper_GF256 f then gmul f a b else 0"
  using byte_gmul by (auto simp: byte_def)

lift_definition ginv :: "Generic_GF \<Rightarrow> gf \<Rightarrow> gf" is
  "\<lambda>f a. if proper_GF256 f \<and> a \<noteq> 0 then exp_table f ! (255 - lg f a) else 0"
  using gmul_inverse(2) by (auto simp: byte_def)

definition of_byte :: "int \<Rightarrow> gf" where "of_byte = Abs_gf"
definition to_byte :: "gf \<Rightarrow> int" where "to_byte = Rep_gf"

lemma byte_to_byte [simp]: "byte (to_byte a)"
  using Rep_gf[of a] by (simp add: to_byte_def byte_def)

lemma of_to_byte [simp]: "of_byte (to_byte a) = a"
  by (simp add: of_byte_def to_byte_def Rep_gf_inverse)

lemma to_of_byte [simp]: "byte x \<Longrightarrow> to_byte (of_byte x) = x"
  by (simp add: of_byte_def to_byte_def Abs_gf_inverse byte_def)

lemma to_byte_inject: "to_byte a = to_byte b \<longleftrightarrow> a = b"
  by (simp add: to_byte_def Rep_gf_inject)

lemma of_byte_eq_iff: "byte x \<Longrightarrow> byte y \<Longrightarrow> of_byte x = of_byte y \<longleftrightarrow> x = y"
  by (metis to_of_byte)

lemma to_byte_0 [simp]: "to_byte 0 = 0" by (simp add: to_byte_def zero_gf.rep_eq)
lemma to_byte_1 [simp]: "to_byte g1 = 1" by (simp add: to_byte_def g1.rep_eq)
lemma of_byte_0 [simp]: "of_byte 0 = 0" by (metis of_to_byte to_byte_0)
lemma of_byte_1 [simp]: "of_byte 1 = g1" by (metis of_to_byte to_byte_1)

lemma to_byte_eq_0 [simp]: "to_byte a = 0 \<longleftrightarrow> a = 0"
  by (metis to_byte_0 to_byte_inject)

lemma of_byte_eq_0: "byte x \<Longrightarrow> of_byte x = 0 \<longleftrightarrow> x = 0"
  by (metis to_of_byte of_byte_0 to_byte_0)

lemma to_byte_add: "to_byte (a + b) = to_byte a XOR to_byte b"
  by (simp add: to_byte_def plus_gf.rep_eq)

lemma of_byte_xor: "byte x \<Longrightarrow> byte y \<Longrightarrow> of_byte (x XOR y) = of_byte x + of_byte y"
  by (metis byte_xor to_byte_add to_of_byte of_to_byte)

lemma to_byte_gm: "proper_GF256 f \<Longrightarrow> to_byte (gm f a b) = gmul f (to_byte a) (to_byte b)"
  by (simp add: to_byte_def gm.rep_eq)

lemma of_byte_gmul:
  "proper_GF256 f \<Longrightarrow> byte x \<Longrightarrow> byte y \<Longrightarrow> of_byte (gmul f x y) = gm f (of_byte x) (of_byte y)"
  by (metis to_byte_gm to_of_byte of_to_byte)

lemma gf_neg [simp]: "- (a::gf) = a" by transfer simp
lemma gf_minus [simp]: "(a::gf) - b = a + b" by transfer simp
lemma gf_add_self [simp]: "(a::gf) + a = 0" by transfer simp
lemma gf_add_self_left [simp]: "(a::gf) + (a + b) = b" by (simp add: add.assoc[symmetric])
lemma gf_add_eq_0: "(a::gf) + b = 0 \<longleftrightarrow> a = b"
  by (metis add.right_neutral gf_add_self gf_add_self_left)

lemma g1_neq_0 [simp]: "g1 \<noteq> 0" by transfer simp

lemma gm_commute: "gm f a b = gm f b a"
  by transfer (simp add: gmul_commute)

lemma gm_assoc: "gm f (gm f a b) c = gm f a (gm f b c)"
  by transfer (auto simp: gmul_assoc byte_def)

lemma gm_left_commute: "gm f a (gm f b c) = gm f b (gm f a c)"
  by (metis gm_assoc gm_commute)

lemmas gm_ac = gm_assoc gm_commute gm_left_commute

lemma gm_0 [simp]: "gm f 0 a = 0" "gm f a 0 = 0"
  by (transfer, simp)+

lemma gm_1 [simp]: "proper_GF256 f \<Longrightarrow> gm f g1 a = a" "proper_GF256 f \<Longrightarrow> gm f a g1 = a"
  by (transfer, simp add: gmul_1_left gmul_1_right byte_def)+

lemma gm_add_right: "gm f a (b + c) = gm f a b + gm f a c"
  by transfer (auto simp: gmul_xor_right byte_def)

lemma gm_add_left: "gm f (a + b) c = gm f a c + gm f b c"
  by transfer (auto simp: gmul_xor_left byte_def)

lemma gm_eq_0_iff: "proper_GF256 f \<Longrightarrow> gm f a b = 0 \<longleftrightarrow> a = 0 \<or> b = 0"
  by transfer (auto simp: byte_def dest: gmul_nonzero[rotated -1])

lemma gm_ginv: "proper_GF256 f \<Longrightarrow> a \<noteq> 0 \<Longrightarrow> gm f a (ginv f a) = g1"
  by transfer (simp add: gmul_inverse(1) byte_def)

lemma ginv_nonzero: "proper_GF256 f \<Longrightarrow> a \<noteq> 0 \<Longrightarrow> ginv f a \<noteq> 0"
  by (metis gm_ginv gm_0(2) g1_neq_0)

lemma gm_cancel_left: "proper_GF256 f \<Longrightarrow> a \<noteq> 0 \<Longrightarrow> gm f a b = gm f a c \<longleftrightarrow> b = c"
proof
  assume pf: "proper_GF256 f" and a: "a \<noteq> 0" and e: "gm f a b = gm f a c"
  have "gm f a (b + c) = 0" using e by (simp add: gm_add_right)
  then show "b = c" using gm_eq_0_iff[OF pf] a by (simp add: gf_add_eq_0)
qed simp

lemma multiply_GF_gm:
  "proper_GF256 f \<Longrightarrow> multiply_GF f (Num (to_byte a)) (Num (to_byte b)) = Num (to_byte (gm f a b))"
  by (simp add: multiply_GF_Num to_byte_gm)

lemma inverse_GF_ginv:
  assumes "proper_GF256 f" "a \<noteq> 0"
  shows "inverse_GF f (Num (to_byte a)) = Inr (Num (to_byte (ginv f a)))"
proof -
  have nz: "to_byte a \<noteq> 0" using assms(2) by simp
  have "to_byte (ginv f a) = exp_table f ! (255 - lg f (to_byte a))"
    using assms(1) nz by (simp add: to_byte_def ginv.rep_eq)
  then show ?thesis using inverse_GF_Num[OF assms(1) byte_to_byte nz] by simp
qed

section \<open>Polynomials as coefficient sequences\<close>

type_synonym gpoly = "nat \<Rightarrow> gf"

definition bnd :: "nat \<Rightarrow> gpoly \<Rightarrow> bool" where
  "bnd n u \<longleftrightarrow> (\<forall>k\<ge>n. u k = 0)"

definition cadd :: "gpoly \<Rightarrow> gpoly \<Rightarrow> gpoly" where
  "cadd u v = (\<lambda>k. u k + v k)"

definition cmul :: "Generic_GF \<Rightarrow> gpoly \<Rightarrow> gpoly \<Rightarrow> gpoly" where
  "cmul f u v = (\<lambda>k. \<Sum>i\<le>k. gm f (u i) (v (k - i)))"

definition csm :: "Generic_GF \<Rightarrow> gf \<Rightarrow> gpoly \<Rightarrow> gpoly" where
  "csm f c u = (\<lambda>k. gm f c (u k))"

definition cshift :: "nat \<Rightarrow> gpoly \<Rightarrow> gpoly" where
  "cshift d u = (\<lambda>k. if k < d then 0 else u (k - d))"

fun gp :: "Generic_GF \<Rightarrow> gf \<Rightarrow> nat \<Rightarrow> gf" where
  "gp f x 0 = g1"
| "gp f x (Suc n) = gm f x (gp f x n)"

definition cev :: "Generic_GF \<Rightarrow> gpoly \<Rightarrow> nat \<Rightarrow> gf \<Rightarrow> gf" where
  "cev f u n x = (\<Sum>k<n. gm f (u k) (gp f x k))"

lemma gm_sum_right: "gm f a (sum g S) = (\<Sum>i\<in>S. gm f a (g i))"
proof (cases "finite S")
  case True
  then show ?thesis by (induction S) (simp_all add: gm_add_right)
next
  case False
  then show ?thesis by simp
qed

lemma gm_sum_left: "gm f (sum g S) a = (\<Sum>i\<in>S. gm f (g i) a)"
  by (simp add: gm_commute[of f _ a] gm_sum_right)

lemma gp_add: "proper_GF256 f \<Longrightarrow> gp f x (m + n) = gm f (gp f x m) (gp f x n)"
  by (induction m) (simp_all add: gm_ac)

lemma gp_0_left [simp]: "gp f 0 (Suc n) = 0" by simp

lemma gp_eq_0: "proper_GF256 f \<Longrightarrow> gp f x n = 0 \<Longrightarrow> x = 0"
  by (induction n) (auto simp: gm_eq_0_iff)

lemma gp_1 [simp]: "proper_GF256 f \<Longrightarrow> gp f g1 n = g1"
  by (induction n) simp_all

lemma bnd_mono: "bnd n u \<Longrightarrow> n \<le> m \<Longrightarrow> bnd m u"
  by (simp add: bnd_def)

lemma bnd_cadd: "bnd n u \<Longrightarrow> bnd n v \<Longrightarrow> bnd n (cadd u v)"
  by (simp add: bnd_def cadd_def)

lemma bnd_csm: "bnd n u \<Longrightarrow> bnd n (csm f c u)"
  by (simp add: bnd_def csm_def)

lemma bnd_cshift: "bnd n u \<Longrightarrow> bnd (n + d) (cshift d u)"
  by (auto simp: bnd_def cshift_def)

lemma bnd_cmul:
  assumes "bnd n u" "bnd m v"
  shows "bnd (n + m - 1) (cmul f u v)"
proof -
  have "gm f (u i) (v (k - i)) = 0" if "n + m - 1 \<le> k" "i \<le> k" for i k
  proof (cases "i < n")
    case True
    then have "m \<le> k - i" using that by linarith
    then show ?thesis using assms(2) by (simp add: bnd_def)
  next
    case False
    then show ?thesis using assms(1) by (simp add: bnd_def)
  qed
  then show ?thesis by (simp add: bnd_def cmul_def)
qed

lemma cev_extend:
  assumes "bnd n u" "n \<le> m"
  shows "cev f u m x = cev f u n x"
proof -
  have "(\<Sum>k<m. gm f (u k) (gp f x k)) = (\<Sum>k<n. gm f (u k) (gp f x k))"
    using assms by (intro sum.mono_neutral_right) (auto simp: bnd_def)
  then show ?thesis by (simp add: cev_def)
qed

lemma cev_cadd: "cev f (cadd u v) n x = cev f u n x + cev f v n x"
  by (simp add: cev_def cadd_def gm_add_left sum.distrib)

lemma cev_csm: "cev f (csm f c u) n x = gm f c (cev f u n x)"
  by (simp add: cev_def csm_def gm_sum_right gm_assoc)

lemma cev_cshift:
  assumes pf: "proper_GF256 f"
  shows "cev f (cshift d u) (n + d) x = gm f (gp f x d) (cev f u n x)"
proof -
  have "(\<Sum>k<n + d. gm f (cshift d u k) (gp f x k))
          = (\<Sum>k\<in>{d..<n + d}. gm f (cshift d u k) (gp f x k))"
    by (intro sum.mono_neutral_right) (auto simp: cshift_def)
  also have "\<dots> = (\<Sum>k<n. gm f (cshift d u (k + d)) (gp f x (k + d)))"
    by (rule sum.reindex_bij_witness[of _ "\<lambda>k. k + d" "\<lambda>k. k - d"]) auto
  also have "\<dots> = (\<Sum>k<n. gm f (gp f x d) (gm f (u k) (gp f x k)))"
    by (simp add: cshift_def gp_add[OF pf] gm_ac)
  finally show ?thesis by (simp add: cev_def gm_sum_right)
qed

lemma cev_cmul:
  assumes pf: "proper_GF256 f" and u: "bnd n u" and v: "bnd m v"
  shows "cev f (cmul f u v) (n + m) x = gm f (cev f u n x) (cev f v m x)"
proof -
  let ?g = "\<lambda>i j. gm f (gm f (u i) (v j)) (gp f x (i + j))"
  have "cev f (cmul f u v) (n + m) x = (\<Sum>k<n + m. \<Sum>i\<le>k. ?g i (k - i))"
    by (simp add: cev_def cmul_def gm_sum_left)
  also have "\<dots> = (\<Sum>(i, j)\<in>{(i, j). i + j < n + m}. ?g i j)"
    by (rule sum.triangle_reindex[symmetric])
  also have "\<dots> = (\<Sum>(i, j)\<in>{..<n} \<times> {..<m}. ?g i j)"
  proof (rule sum.mono_neutral_right)
    have "{(i, j). i + j < n + m} \<subseteq> {..<n + m} \<times> {..<n + m}" by auto
    then show "finite {(i, j). i + j < n + m}" by (rule finite_subset) simp
    show "{..<n} \<times> {..<m} \<subseteq> {(i, j). i + j < n + m}" by auto
    have "?g i j = 0" if "\<not> (i < n \<and> j < m)" for i j
    proof (cases "i < n")
      case True
      then have "v j = 0" using that v by (simp add: bnd_def)
      then show ?thesis by simp
    next
      case False
      then have "u i = 0" using u by (simp add: bnd_def)
      then show ?thesis by simp
    qed
    then show "\<forall>p\<in>{(i, j). i + j < n + m} - {..<n} \<times> {..<m}. (case p of (i, j) \<Rightarrow> ?g i j) = 0"
      by auto
  qed
  also have "\<dots> = (\<Sum>i<n. \<Sum>j<m. ?g i j)" by (simp add: sum.cartesian_product)
  also have "\<dots> = (\<Sum>i<n. \<Sum>j<m. gm f (gm f (u i) (gp f x i)) (gm f (v j) (gp f x j)))"
    by (simp add: gp_add[OF pf] gm_ac)
  also have "\<dots> = (\<Sum>i<n. gm f (gm f (u i) (gp f x i)) (cev f v m x))"
    by (simp add: cev_def gm_sum_right)
  also have "\<dots> = gm f (cev f u n x) (cev f v m x)"
    by (simp add: cev_def[of f u] gm_sum_left)
  finally show ?thesis .
qed

section \<open>The coefficient arrays as polynomials\<close>

definition cf :: "int list \<Rightarrow> gpoly" where
  "cf p = (\<lambda>k. if k < length p then of_byte (p ! (length p - 1 - k)) else 0)"

fun hv :: "Generic_GF \<Rightarrow> gf \<Rightarrow> gf \<Rightarrow> int list \<Rightarrow> gf" where
  "hv f x acc [] = acc"
| "hv f x acc (c # cs) = hv f x (gm f x acc + of_byte c) cs"

lemma bnd_cf: "bnd (length p) (cf p)"
  by (simp add: bnd_def cf_def)

lemma cf_Nil [simp]: "cf [] = (\<lambda>k. 0)"
  by (simp add: cf_def)

lemma cf_Cons: "cf (c # p) = (\<lambda>k. if k = length p then of_byte c else cf p k)"
  by (rule ext) (auto simp: cf_def nth_Cons' Suc_diff_le)

lemma cf_zero_Cons [simp]: "cf (0 # p) = cf p"
  by (rule ext) (auto simp: cf_Cons cf_def)

lemma cf_dropWhile: "cf (dropWhile (\<lambda>c. c = 0) p) = cf p"
  by (induction p) simp_all

lemma cf_all_zero: "\<forall>x\<in>set q. x = 0 \<Longrightarrow> cf q = (\<lambda>k. 0)"
  by (induction q) simp_all

lemma cf_strip_zeros [simp]: "cf (strip_zeros p) = cf p"
proof (cases "length p > 1 \<and> hd p = 0")
  case False
  then show ?thesis by (auto simp: strip_zeros_def)
next
  case True
  then obtain q where p: "p = 0 # q" by (cases p) auto
  have s: "strip_zeros p = (if dropWhile (\<lambda>c. c = 0) q = [] then [0] else dropWhile (\<lambda>c. c = 0) q)"
    using True p by (simp add: strip_zeros_def Let_def)
  show ?thesis
  proof (cases "dropWhile (\<lambda>c. c = 0) q = []")
    case True
    have "cf q = cf []" using cf_dropWhile[of q] unfolding True by simp
    moreover have "strip_zeros p = [0]" unfolding s True by simp
    ultimately show ?thesis by (simp add: p)
  next
    case False
    have "strip_zeros p = dropWhile (\<lambda>c. c = 0) q" unfolding s using False by auto
    then show ?thesis using cf_dropWhile[of q] by (simp add: p)
  qed
qed

lemma cf_append_zeros: "cf (p @ replicate d 0) = cshift d (cf p)"
proof (rule ext)
  fix k
  show "cf (p @ replicate d 0) k = cshift d (cf p) k"
  proof (cases "k < d")
    case True
    then have "\<not> length p + d - Suc k < length p" by simp
    then show ?thesis using True by (simp add: cf_def cshift_def nth_append)
  next
    case False
    then have "length p + d - Suc k = length p - Suc (k - d)" by simp
    then show ?thesis using False by (auto simp: cf_def cshift_def nth_append)
  qed
qed

lemma cf_zeros_append: "cf (replicate d 0 @ p) = cf p"
  by (induction d) simp_all

lemma cf_map_gmul:
  assumes "proper_GF256 f" "bytes p" "byte s"
  shows "cf (map (\<lambda>c. gmul f c s) p) = csm f (of_byte s) (cf p)"
proof (rule ext)
  fix k
  show "cf (map (\<lambda>c. gmul f c s) p) k = csm f (of_byte s) (cf p) k"
  proof (cases "k < length p")
    case True
    then have "byte (p ! (length p - 1 - k))" using assms(2) by (intro bytes_nth) auto
    then show ?thesis using True assms(1,3)
      by (simp add: cf_def csm_def of_byte_gmul gm_commute)
  next
    case False
    then show ?thesis by (simp add: cf_def csm_def)
  qed
qed

lemma cf_map2_xor:
  assumes "length p = length q" "bytes p" "bytes q"
  shows "cf (map2 (XOR) p q) = cadd (cf p) (cf q)"
proof (rule ext)
  fix k
  show "cf (map2 (XOR) p q) k = cadd (cf p) (cf q) k"
  proof (cases "k < length p")
    case True
    then have "byte (p ! (length p - 1 - k))" "byte (q ! (length p - 1 - k))"
      using assms by (auto intro!: bytes_nth)
    then show ?thesis using True assms(1) by (simp add: cf_def cadd_def of_byte_xor)
  next
    case False
    then show ?thesis using assms(1) by (simp add: cf_def cadd_def)
  qed
qed

lemma aligned_sum_eq:
  assumes "length smaller \<le> length larger"
  shows "take (length larger - length smaller) larger
           @ map2 (XOR) smaller (drop (length larger - length smaller) larger)
         = map2 (XOR) (replicate (length larger - length smaller) 0 @ smaller) larger"
proof -
  let ?d = "length larger - length smaller"
  have "map2 (XOR) (replicate ?d 0 @ smaller) larger
          = map2 (XOR) (replicate ?d 0 @ smaller) (take ?d larger @ drop ?d larger)" by simp
  also have "\<dots> = map2 (XOR) (replicate ?d 0) (take ?d larger)
                     @ map2 (XOR) smaller (drop ?d larger)"
    using assms by (subst zip_append) simp_all
  also have "map2 (XOR) (replicate ?d 0) (take ?d larger) = take ?d larger"
    by (rule nth_equalityI) simp_all
  finally show ?thesis by simp
qed

lemma cf_aligned_sum:
  assumes "length smaller \<le> length larger" "bytes smaller" "bytes larger"
  shows "cf (take (length larger - length smaller) larger
               @ map2 (XOR) smaller (drop (length larger - length smaller) larger))
         = cadd (cf smaller) (cf larger)"
  using assms
  by (simp add: aligned_sum_eq cf_map2_xor cf_zeros_append)

lemma hv_eq:
  assumes pf: "proper_GF256 f"
  shows "hv f x acc cs = gm f acc (gp f x (length cs)) + cev f (cf cs) (length cs) x"
proof (induction cs arbitrary: acc)
  case Nil
  then show ?case using pf by (simp add: cev_def)
next
  case (Cons c cs)
  have "cev f (cf (c # cs)) (Suc (length cs)) x
          = cev f (cf cs) (length cs) x + gm f (of_byte c) (gp f x (length cs))"
    by (simp add: cev_def cf_Cons)
  then show ?case
    using Cons[of "gm f x acc + of_byte c"]
    by (simp add: gm_add_left gm_add_right gm_ac ac_simps)
qed

lemma hv_0: "hv f x 0 cs = cev f (cf cs) (length cs) x" if "proper_GF256 f"
  using hv_eq[OF that, of x 0 cs] by simp

lemma cev_at_0:
  assumes pf: "proper_GF256 f" and n: "0 < n"
  shows "cev f u n 0 = u 0"
proof -
  have "(\<Sum>k<n. gm f (u k) (gp f 0 k)) = (\<Sum>k\<in>{0}. gm f (u k) (gp f 0 k))"
  proof (rule sum.mono_neutral_right)
    show "\<forall>i\<in>{..<n} - {0}. gm f (u i) (gp f 0 i) = 0"
    proof
      fix i assume "i \<in> {..<n} - {0}"
      then obtain j where "i = Suc j" by (cases i) auto
      then show "gm f (u i) (gp f 0 i) = 0" by simp
    qed
  qed (use n in auto)
  then show ?thesis using pf by (simp add: cev_def)
qed

lemma horner_fold:
  assumes pf: "proper_GF256 f"
  shows "bytes cs \<Longrightarrow>
         fold (\<lambda>c result. Num (add_or_subtract_GF (multiply_GF f (Num (to_byte x)) result) (Num c)))
           cs (Num (to_byte acc)) = Num (to_byte (hv f x acc cs))"
proof (induction cs arbitrary: acc)
  case Nil
  then show ?case by simp
next
  case (Cons c cs)
  have "add_or_subtract_GF (multiply_GF f (Num (to_byte x)) (Num (to_byte acc))) (Num c)
          = to_byte (gm f x acc + of_byte c)"
    using Cons.prems by (simp add: multiply_GF_gm[OF pf] add_or_subtract_GF_def to_byte_add)
  then show ?case using Cons by simp
qed

lemma xor_fold:
  assumes pf: "proper_GF256 f"
  shows "bytes cs \<Longrightarrow>
         fold (\<lambda>c result. add_or_subtract_GF (Num result) (Num c)) cs (to_byte acc)
           = to_byte (hv f g1 acc cs)"
proof (induction cs arbitrary: acc)
  case Nil
  then show ?case by simp
next
  case (Cons c cs)
  have "add_or_subtract_GF (Num (to_byte acc)) (Num c) = to_byte (gm f g1 acc + of_byte c)"
    using Cons.prems pf by (simp add: add_or_subtract_GF_def to_byte_add)
  then show ?case using Cons by simp
qed

lemma evaluate_at_cev:
  assumes pf: "proper_GF256 f" and p: "bytes p" "p \<noteq> []"
  shows "evaluate_at f p (Num (to_byte x)) = Num (to_byte (cev f (cf p) (length p) x))"
proof -
  obtain c cs where pc: "p = c # cs" using p(2) by (cases p) auto
  have bc: "byte c" "bytes cs" using p(1) pc by auto
  consider (zero) "x = 0" | (one) "x = g1" | (other) "to_byte x \<noteq> 0" "to_byte x \<noteq> 1"
    by (metis to_byte_0 to_byte_1 to_byte_inject)
  then show ?thesis
  proof cases
    case zero
    have "get_coefficient p 0 = Num (p ! length cs)"
      by (simp add: get_coefficient_def pc)
    moreover have "last p = p ! length cs" by (simp add: pc last_conv_nth)
    ultimately have "get_coefficient p 0 = Num (last p)" by simp
    moreover have "cev f (cf p) (length p) 0 = of_byte (last p)"
      using cev_at_0[OF pf, of "length p" "cf p"] by (simp add: cf_def pc last_conv_nth)
    moreover have "byte (last p)" using p by (simp add: bytes_def list_all_iff)
    ultimately show ?thesis using zero by (simp add: evaluate_at_def)
  next
    case one
    have "fold (\<lambda>c result. add_or_subtract_GF (Num result) (Num c)) p (to_byte 0)
            = to_byte (hv f g1 0 p)" using xor_fold[OF pf p(1)] .
    then show ?thesis using one hv_0[OF pf, of g1 p] by (simp add: evaluate_at_def)
  next
    case other
    have "evaluate_at f p (Num (to_byte x))
            = fold (\<lambda>c result. Num (add_or_subtract_GF (multiply_GF f (Num (to_byte x)) result) (Num c)))
                cs (Num (to_byte (of_byte c)))"
      using other bc(1) by (simp add: evaluate_at_def pc)
    also have "\<dots> = Num (to_byte (hv f x (of_byte c) cs))"
      using horner_fold[OF pf bc(2)] .
    also have "hv f x (of_byte c) cs = hv f x 0 p" by (simp add: pc)
    also have "\<dots> = cev f (cf p) (length p) x" by (rule hv_0[OF pf])
    finally show ?thesis .
  qed
qed

lemma of_byte_xsum: "(\<And>i. i < n \<Longrightarrow> byte (g i)) \<Longrightarrow> of_byte (xsum g n) = (\<Sum>i<n. of_byte (g i))"
proof (induction n)
  case 0
  then show ?case by simp
next
  case (Suc n)
  have "byte (xsum g n)" using Suc.prems by (intro byte_xsum) simp
  then show ?case using Suc by (simp add: of_byte_xor add.commute)
qed

lemma cf_product_array:
  assumes pf: "proper_GF256 f" and a: "a \<noteq> []" "bytes a" and b: "b \<noteq> []" "bytes b"
  shows "cf (product_array f a b) = cmul f (cf a) (cf b)"
proof (rule ext)
  fix D
  let ?la = "length a" and ?lb = "length b"
  have lp: "length (product_array f a b) = ?la + ?lb - 1"
    using length_product_array[OF a(1) b(1)] .
  show "cf (product_array f a b) D = cmul f (cf a) (cf b) D"
  proof (cases "D < ?la + ?lb - 1")
    case False
    have "bnd (?la + ?lb - 1) (cmul f (cf a) (cf b))" using bnd_cmul[OF bnd_cf bnd_cf] .
    then show ?thesis using False lp by (simp add: cf_def bnd_def)
  next
    case True
    define k where "k = ?la + ?lb - 2 - D"
    have k: "k < ?la + ?lb - 1" "k + D + 2 = ?la + ?lb" using True by (auto simp: k_def)
    let ?t = "\<lambda>i. if i \<le> k \<and> k < i + ?lb then gmul f (a ! i) (b ! (k - i)) else 0"
    have bt: "byte (?t i)" if "i < ?la" for i
      using that a b by (auto intro!: byte_gmul[OF pf] bytes_nth)
    have "cf (product_array f a b) D = of_byte (product_array f a b ! k)"
      using True lp k by (simp add: cf_def k_def)
    also have "\<dots> = of_byte (conv_at f a b k)"
      using k(1) by (simp add: product_array_eq[OF a(1) b(1)])
    also have "\<dots> = (\<Sum>i<?la. of_byte (?t i))"
      unfolding conv_at_def by (rule of_byte_xsum) (rule bt)
    also have "\<dots> = (\<Sum>u<?la. if u \<le> D \<and> D - u < ?lb then gm f (cf a u) (cf b (D - u)) else 0)"
    proof (rule sum.reindex_bij_witness[of _ "\<lambda>u. ?la - 1 - u" "\<lambda>i. ?la - 1 - i"])
      fix i assume i: "i \<in> {..<?la}"
      then show "?la - 1 - (?la - 1 - i) = i" "?la - 1 - i \<in> {..<?la}" by auto
      define u where "u = ?la - 1 - i"
      have la: "?la = i + u + 1" using i by (simp add: u_def)
      have kd: "k + D + 1 = i + u + ?lb" using k(2) la by linarith
      have c: "(i \<le> k \<and> k < i + ?lb) = (u \<le> D \<and> D - u < ?lb)"
        using kd by linarith
      have "(if u \<le> D \<and> D - u < ?lb then gm f (cf a u) (cf b (D - u)) else 0) = of_byte (?t i)"
      proof (cases "i \<le> k \<and> k < i + ?lb")
        case False
        have nu: "\<not> (u \<le> D \<and> D - u < ?lb)" using False c by blast
        show ?thesis by (simp only: False nu if_False of_byte_0)
      next
        case T: True
        then have d: "u \<le> D" "D - u < ?lb" using c by auto
        have idx: "?lb - 1 - (D - u) = k - i" using kd T d by linarith
        have ia: "?la - 1 - u = i" using la by simp
        have ba: "byte (a ! i)" "byte (b ! (k - i))"
          using i T a(2) b(2) by (auto intro!: bytes_nth)
        have "cf a u = of_byte (a ! i)" using la ia by (simp add: cf_def)
        moreover have "cf b (D - u) = of_byte (b ! (k - i))" using d(2) idx by (simp add: cf_def)
        ultimately have "gm f (cf a u) (cf b (D - u)) = of_byte (gmul f (a ! i) (b ! (k - i)))"
          using ba by (simp add: of_byte_gmul[OF pf])
        then show ?thesis by (simp only: T d if_True simp_thms)
      qed
      then show "(if ?la - 1 - i \<le> D \<and> D - (?la - 1 - i) < ?lb
                  then gm f (cf a (?la - 1 - i)) (cf b (D - (?la - 1 - i))) else 0) = of_byte (?t i)"
        by (simp only: u_def)
    next
      fix u assume "u \<in> {..<?la}"
      then show "?la - 1 - (?la - 1 - u) = u" "?la - 1 - u \<in> {..<?la}" by auto
    qed
    also have "\<dots> = (\<Sum>u\<in>{..<?la} \<inter> {..D}. if u \<le> D \<and> D - u < ?lb then gm f (cf a u) (cf b (D - u)) else 0)"
      by (rule sum.mono_neutral_right) auto
    also have "\<dots> = (\<Sum>u\<in>{..<?la} \<inter> {..D}. gm f (cf a u) (cf b (D - u)))"
      by (rule sum.cong) (auto simp: cf_def)
    also have "\<dots> = (\<Sum>u\<le>D. gm f (cf a u) (cf b (D - u)))"
      by (rule sum.mono_neutral_left) (auto simp: cf_def)
    finally show ?thesis by (simp add: cmul_def)
  qed
qed

definition pev :: "Generic_GF \<Rightarrow> int list \<Rightarrow> gf \<Rightarrow> gf" where
  "pev f p x = cev f (cf p) (length p) x"

definition root :: "Generic_GF \<Rightarrow> nat \<Rightarrow> gf" where
  "root f i = of_byte (to_int32 (exp_GF f (Num (int i + generator_base f))))"

lemma cev_cf: "length p \<le> n \<Longrightarrow> cev f (cf p) n x = pev f p x"
  unfolding pev_def by (rule cev_extend[OF bnd_cf])

lemma pev_cong: "cf p = cf q \<Longrightarrow> pev f p x = pev f q x"
proof -
  assume e: "cf p = cf q"
  let ?n = "max (length p) (length q)"
  have "pev f p x = cev f (cf p) ?n x" by (simp add: cev_cf)
  also have "\<dots> = cev f (cf q) ?n x" by (simp add: e)
  also have "\<dots> = pev f q x" by (simp add: cev_cf)
  finally show ?thesis .
qed

lemma pev_strip_zeros [simp]: "pev f (strip_zeros p) x = pev f p x"
  by (rule pev_cong) simp

lemma pev_cadd:
  assumes "cf p = cadd (cf a) (cf b)"
  shows "pev f p x = pev f a x + pev f b x"
proof -
  let ?n = "max (length p) (max (length a) (length b))"
  have "pev f p x = cev f (cf p) ?n x" by (simp add: cev_cf)
  also have "\<dots> = cev f (cf a) ?n x + cev f (cf b) ?n x" by (simp add: assms cev_cadd)
  also have "\<dots> = pev f a x + pev f b x" by (simp add: cev_cf)
  finally show ?thesis .
qed

lemma pev_scaled_shifted:
  assumes pf: "proper_GF256 f" and "cf p = cshift d (csm f s (cf a))"
  shows "pev f p x = gm f (gp f x d) (gm f s (pev f a x))"
proof -
  let ?n = "max (length p) (length a + d)"
  have "pev f p x = cev f (cf p) ?n x" by (simp add: cev_cf)
  also have "\<dots> = cev f (cshift d (csm f s (cf a))) (length a + d) x"
    unfolding assms(2)
    by (rule cev_extend[OF bnd_cshift[OF bnd_csm[OF bnd_cf]]]) simp
  also have "\<dots> = gm f (gp f x d) (gm f s (pev f a x))"
    by (simp add: cev_cshift[OF pf] cev_csm pev_def)
  finally show ?thesis .
qed

lemma pev_cmul:
  assumes pf: "proper_GF256 f" and "cf p = cmul f (cf a) (cf b)"
  shows "pev f p x = gm f (pev f a x) (pev f b x)"
proof -
  let ?n = "max (length p) (length a + length b)"
  have b: "bnd (length a + length b) (cmul f (cf a) (cf b))"
    using bnd_cmul[OF bnd_cf bnd_cf, of a b f] by (rule bnd_mono) simp
  have "pev f p x = cev f (cf p) ?n x" by (simp add: cev_cf)
  also have "\<dots> = cev f (cmul f (cf a) (cf b)) (length a + length b) x"
    unfolding assms(2) by (rule cev_extend[OF b]) simp
  also have "\<dots> = gm f (pev f a x) (pev f b x)"
    by (simp add: cev_cmul[OF pf bnd_cf bnd_cf] pev_def)
  finally show ?thesis .
qed

lemma evaluate_at_pev:
  "proper_GF256 f \<Longrightarrow> bytes p \<Longrightarrow> p \<noteq> [] \<Longrightarrow>
   evaluate_at f p (Num (to_byte x)) = Num (to_byte (pev f p x))"
  by (simp add: evaluate_at_cev pev_def)

lemma multiply_GF_Undefined: "to_int32 (multiply_GF f Undefined r) = 0"
  by (cases r) (simp_all add: multiply_GF_def)

lemma undefined_fold:
  "fold (\<lambda>c result. Num (add_or_subtract_GF (multiply_GF f Undefined result) (Num c))) cs s
     = (if cs = [] then s else Num (last cs))"
  by (induction cs arbitrary: s) (simp_all add: add_or_subtract_GF_def multiply_GF_Undefined)

lemma evaluate_at_Undefined:
  assumes "p \<noteq> []"
  shows "evaluate_at f p Undefined = Num (last p)"
proof -
  obtain c cs where pc: "p = c # cs" using assms by (cases p) auto
  show ?thesis by (simp add: evaluate_at_def pc undefined_fold)
qed

lemma byte_root_rep: "proper_GF256 f \<Longrightarrow> to_byte (root f i) = to_int32 (exp_GF f (Num (int i + generator_base f)))"
  by (simp add: root_def byte_exp_GF)

lemma syndrome_eval:
  assumes pf: "proper_GF256 f" and p: "bytes p" "p \<noteq> []"
  shows "evaluate_at f p (exp_GF f (Num (int i + generator_base f))) = Num (to_byte (pev f p (root f i)))"
proof (cases "exp_GF f (Num (int i + generator_base f))")
  case (Num v)
  then have "to_byte (root f i) = v" using byte_root_rep[OF pf, of i] by simp
  then show ?thesis using evaluate_at_pev[OF pf p, of "root f i"] Num by simp
next
  case Undefined
  then have r: "root f i = 0" by (simp add: root_def)
  have "evaluate_at f p (Num (to_byte (0::gf))) = Num (last p)"
    using p(2) by (cases p) (simp_all add: evaluate_at_def get_coefficient_def last_conv_nth)
  then show ?thesis
    using evaluate_at_pev[OF pf p, of 0] evaluate_at_Undefined[OF p(2), of f] Undefined r by simp
qed

lemma pev_generator_Suc:
  assumes pf: "proper_GF256 f"
  shows "pev f (generator f (Suc d)) x = gm f (pev f (generator f d) x) (x + root f d)"
proof -
  let ?g = "generator f d"
  let ?c = "to_int32 (exp_GF f (Num (int d + generator_base f)))"
  have g: "?g \<noteq> []" "bytes ?g" "hd ?g = 1" using generator_props[OF pf, of d] by auto
  have bc: "byte ?c" by (rule byte_exp_GF[OF pf])
  have m: "[1, ?c] \<noteq> []" "bytes [1, ?c]" using bc by simp_all
  have nz: "\<not> is_zero ?g" "\<not> is_zero [1, ?c]" using g by (simp_all add: is_zero_iff)
  have "cf (generator f (Suc d)) = cf (product_array f ?g [1, ?c])"
    using nz by (simp add: pmul_def)
  also have "\<dots> = cmul f (cf ?g) (cf [1, ?c])" by (rule cf_product_array[OF pf g(1,2) m])
  finally have "pev f (generator f (Suc d)) x = gm f (pev f ?g x) (pev f [1, ?c] x)"
    by (rule pev_cmul[OF pf])
  moreover have "pev f [1, ?c] x = x + root f d"
    using pf by (simp add: pev_def cev_def cf_def root_def lessThan_Suc numeral_2_eq_2)
  ultimately show ?thesis by simp
qed

lemma pev_generator_root:
  assumes pf: "proper_GF256 f"
  shows "j < d \<Longrightarrow> pev f (generator f d) (root f j) = 0"
proof (induction d)
  case 0
  then show ?case by simp
next
  case (Suc d)
  show ?case
  proof (cases "j = d")
    case True
    then show ?thesis by (simp only: pev_generator_Suc[OF pf]) simp
  next
    case False
    then have "j < d" using Suc.prems by simp
    then show ?thesis using Suc.IH by (simp only: pev_generator_Suc[OF pf]) simp
  qed
qed

section \<open>Encoded buffers are codewords\<close>

lemma cf_div_term:
  assumes pf: "proper_GF256 f" and "bytes other" "byte dlt_inverse" "bytes r" "r \<noteq> []"
  shows "cf (div_term f other dlt_inverse r)
           = cshift (length r - length other)
               (csm f (of_byte (gmul f (hd r) dlt_inverse)) (cf other))"
proof -
  have "byte (gmul f (hd r) dlt_inverse)"
    using assms by (intro byte_gmul bytes_hd)
  then show ?thesis
    unfolding div_term_def cf_append_zeros using assms(1,2) by (simp add: cf_map_gmul)
qed

lemma pev_div_rem:
  assumes pf: "proper_GF256 f"
    and oth: "bytes other" and inv: "byte dlt_inverse"
    and r: "r \<noteq> []" "bytes r" "length other \<le> length r"
    and z: "pev f other x = 0"
  shows "pev f (div_rem f other dlt_inverse r) x = pev f r x"
proof -
  let ?t = "div_term f other dlt_inverse r"
  have lt: "length r = length ?t" using r(3) by (simp add: div_term_def)
  have bt: "bytes ?t" by (rule bytes_div_term[OF pf oth inv r(2,1)])
  have "pev f ?t x = gm f (gp f x (length r - length other))
                        (gm f (of_byte (gmul f (hd r) dlt_inverse)) (pev f other x))"
    by (rule pev_scaled_shifted[OF pf cf_div_term[OF pf oth inv r(2,1)]])
  then have t0: "pev f ?t x = 0" by (simp add: z)
  have "cf (div_rem f other dlt_inverse r) = cadd (cf r) (cf ?t)"
    by (simp add: div_rem_def cf_map2_xor[OF lt r(2) bt])
  from pev_cadd[OF this] show ?thesis by (simp add: t0)
qed

lemma cf_append: "cf (p @ q) = cadd (cshift (length q) (cf p)) (cf q)"
proof (rule ext)
  fix k
  show "cf (p @ q) k = cadd (cshift (length q) (cf p)) (cf q) k"
  proof (cases "k < length q")
    case True
    then have "\<not> length p + length q - Suc k < length p" by simp
    moreover have "length p + length q - Suc k - length p = length q - Suc k" using True by simp
    ultimately show ?thesis using True by (simp add: cf_def cadd_def cshift_def nth_append)
  next
    case False
    then have "length p + length q - Suc k = length p - Suc (k - length q)" by simp
    then show ?thesis using False by (auto simp: cf_def cadd_def cshift_def nth_append)
  qed
qed

lemma encode_remainder_ok:
  assumes pf: "proper_GF256 f" and d: "d \<noteq> []" "bytes d" and ec: "0 < ec"
  shows "encode_remainder f d ec \<noteq> []" "bytes (encode_remainder f d ec)"
    "length (encode_remainder f d ec) \<le> ec"
    "\<And>j. j < ec \<Longrightarrow> pev f (encode_remainder f d ec) (root f j) = pev f (d @ replicate ec 0) (root f j)"
proof -
  let ?i0 = "strip_zeros d"
  let ?info = "strip_zeros (?i0 @ replicate ec 0)"
  let ?g = "generator f ec"
  let ?v = "exp_table f ! (255 - lg f 1)"
  have i0: "?i0 \<noteq> []" "bytes ?i0" using d by (simp_all add: strip_zeros_nonempty bytes_strip_zeros)
  have i: "?info \<noteq> []" "bytes ?info" "?info = [0] \<or> hd ?info \<noteq> 0"
    using i0 by (auto intro!: strip_zeros_nonempty bytes_strip_zeros strip_zeros_normal)
  have g: "?g \<noteq> []" "bytes ?g" using generator_props[OF pf, of ec] by auto
  have bv: "byte ?v" using gmul_inverse(2)[OF pf byte_1] by simp
  define Q where "Q = (\<lambda>r. \<forall>j<ec. pev f r (root f j) = pev f ?info (root f j))"
  have Q0: "Q ?info" by (simp add: Q_def)
  have step: "Q (div_rem f ?g ?v r)"
    if "Q r" "r \<noteq> []" "bytes r" "hd r \<noteq> 0" "length ?g \<le> length r" for r
    unfolding Q_def
  proof (intro allI impI)
    fix j assume j: "j < ec"
    have "pev f (div_rem f ?g ?v r) (root f j) = pev f r (root f j)"
      by (rule pev_div_rem[OF pf g(2) bv that(2,3,5) pev_generator_root[OF pf j]])
    then show "pev f (div_rem f ?g ?v r) (root f j) = pev f ?info (root f j)"
      using that(1) j by (simp add: Q_def)
  qed
  have "\<exists>q r. divide f ?info ?g = Some (Inr (q, r)) \<and> r \<noteq> [] \<and> bytes r \<and> length r \<le> ec \<and> Q r"
    by (rule divide_generator_inv[OF pf i ec Q0 step])
  then obtain q r where r: "divide f ?info ?g = Some (Inr (q, r))" "r \<noteq> []" "bytes r"
      "length r \<le> ec" "Q r"
    by blast
  have er: "encode_remainder f d ec = r" by (simp add: encode_remainder_def r(1))
  show "encode_remainder f d ec \<noteq> []" "bytes (encode_remainder f d ec)"
    "length (encode_remainder f d ec) \<le> ec" using r er by auto
  have "cf ?info = cf (d @ replicate ec 0)" by (simp add: cf_append_zeros)
  then have "pev f ?info x = pev f (d @ replicate ec 0) x" for x by (rule pev_cong)
  then show "\<And>j. j < ec \<Longrightarrow> pev f (encode_remainder f d ec) (root f j) = pev f (d @ replicate ec 0) (root f j)"
    using r(5) er by (simp add: Q_def)
qed

lemma codeword_syndromes_zero:
  assumes pf: "proper_GF256 f" and d: "d \<noteq> []" "bytes d" and ec: "0 < ec" and j: "j < ec"
  shows "pev f (d @ replicate (ec - length (encode_remainder f d ec)) 0 @ encode_remainder f d ec)
           (root f j) = 0"
proof -
  let ?r = "encode_remainder f d ec"
  let ?pad = "replicate (ec - length ?r) 0 @ ?r"
  note er = encode_remainder_ok[OF pf d ec]
  have l: "length ?pad = ec" using er(3) by simp
  have "cf (d @ ?pad) = cadd (cshift ec (cf d)) (cf ?pad)" using cf_append[of d ?pad] l by simp
  also have "cf ?pad = cf ?r" by (rule cf_zeros_append)
  also have "cshift ec (cf d) = cf (d @ replicate ec 0)" by (simp add: cf_append_zeros)
  finally have "pev f (d @ ?pad) (root f j) = pev f (d @ replicate ec 0) (root f j) + pev f ?r (root f j)"
    by (rule pev_cadd)
  then show ?thesis using er(4)[OF j] by simp
qed

lemma valid_codeword_iff:
  assumes pf: "proper_GF256 f" and b: "bytes buffer" "buffer \<noteq> []"
  shows "valid_codeword f buffer ec \<longleftrightarrow> (\<forall>j<nat ec. pev f buffer (root f j) = 0)"
proof -
  let ?p = "strip_zeros buffer"
  have p: "bytes ?p" "?p \<noteq> []" using b by (simp_all add: bytes_strip_zeros strip_zeros_nonempty)
  have "valid_codeword f buffer ec \<longleftrightarrow>
          (\<forall>j<nat ec. evaluate_at f ?p (exp_GF f (Num (int j + generator_base f))) = Num 0)"
    using b(2) by (auto simp: valid_codeword_def Generic_GF_Poly_eq syndrome_evaluations_def list_all_iff)
  then show ?thesis by (simp add: syndrome_eval[OF pf p])
qed

section \<open>Polynomials over the field: ring laws\<close>

definition c0 :: gpoly where
  "c0 = (\<lambda>k. 0)"

definition cmon :: "gf \<Rightarrow> nat \<Rightarrow> gpoly" where
  "cmon c d = (\<lambda>k. if k = d then c else 0)"

definition agree :: "nat \<Rightarrow> gpoly \<Rightarrow> gpoly \<Rightarrow> bool" where
  "agree R u v \<longleftrightarrow> (\<forall>k<R. u k = v k)"

lemma cadd_commute: "cadd u v = cadd v u"
  by (simp add: cadd_def add.commute)

lemma cadd_assoc: "cadd (cadd u v) w = cadd u (cadd v w)"
  by (simp add: cadd_def add.assoc)

lemma cadd_left_commute: "cadd u (cadd v w) = cadd v (cadd u w)"
  by (simp add: cadd_def add.left_commute)

lemmas cadd_ac = cadd_assoc cadd_commute cadd_left_commute

lemma cadd_c0 [simp]: "cadd c0 u = u" "cadd u c0 = u"
  by (simp_all add: cadd_def c0_def)

lemma cadd_self [simp]: "cadd u u = c0"
  by (simp add: cadd_def c0_def)

lemma cadd_self_left [simp]: "cadd u (cadd u v) = v"
  by (simp add: cadd_def)

lemma cadd_eq_c0: "cadd u v = c0 \<longleftrightarrow> u = v"
  by (auto simp: cadd_def c0_def fun_eq_iff gf_add_eq_0)

lemma cmul_commute: "cmul f u v = cmul f v u"
proof
  fix k
  have "(\<Sum>i\<le>k. gm f (u i) (v (k - i))) = (\<Sum>i\<le>k. gm f (u (k - i)) (v i))"
    by (rule sum.reindex_bij_witness[of _ "\<lambda>i. k - i" "\<lambda>i. k - i"]) auto
  then show "cmul f u v k = cmul f v u k"
    by (simp add: cmul_def gm_commute)
qed

lemma cmul_cadd_right: "cmul f u (cadd v w) = cadd (cmul f u v) (cmul f u w)"
  by (simp add: cmul_def cadd_def gm_add_right sum.distrib)

lemma cmul_cadd_left: "cmul f (cadd u v) w = cadd (cmul f u w) (cmul f v w)"
  by (simp add: cmul_def cadd_def gm_add_left sum.distrib)

lemma cmul_c0 [simp]: "cmul f c0 u = c0" "cmul f u c0 = c0"
  by (simp_all add: cmul_def c0_def)

lemma cmul_csm_left: "cmul f (csm f c u) v = csm f c (cmul f u v)"
  by (simp add: cmul_def csm_def gm_sum_right gm_assoc)

lemma cmul_csm_right: "cmul f u (csm f c v) = csm f c (cmul f u v)"
  by (simp add: cmul_commute[of f u] cmul_csm_left)

lemma cmul_cshift_left: "cmul f (cshift d u) v = cshift d (cmul f u v)"
proof
  fix k
  show "cmul f (cshift d u) v k = cshift d (cmul f u v) k"
  proof (cases "k < d")
    case True
    then show ?thesis by (simp add: cmul_def cshift_def)
  next
    case False
    have "(\<Sum>i\<le>k. gm f (cshift d u i) (v (k - i)))
            = (\<Sum>i\<in>{d..k}. gm f (cshift d u i) (v (k - i)))"
      by (intro sum.mono_neutral_right) (auto simp: cshift_def)
    also have "\<dots> = (\<Sum>i\<le>k - d. gm f (u i) (v (k - d - i)))"
      using False
      by (intro sum.reindex_bij_witness[of _ "\<lambda>i. i + d" "\<lambda>i. i - d"]) (auto simp: cshift_def)
    finally show ?thesis using False by (simp add: cmul_def cshift_def)
  qed
qed

lemma cmul_cshift_right: "cmul f u (cshift d v) = cshift d (cmul f u v)"
  by (simp add: cmul_commute[of f u] cmul_cshift_left)

lemma cmul_cmon: "cmul f (cmon c d) u = csm f c (cshift d u)"
proof
  fix k
  have "(\<Sum>i\<le>k. gm f (cmon c d i) (u (k - i))) = (\<Sum>i\<le>k. if i = d then gm f c (u (k - d)) else 0)"
    by (intro sum.cong) (auto simp: cmon_def)
  also have "\<dots> = (if d \<le> k then gm f c (u (k - d)) else 0)"
    by (simp add: sum.delta)
  finally show "cmul f (cmon c d) u k = csm f c (cshift d u) k"
    by (auto simp: cmul_def csm_def cshift_def)
qed

lemma cmul_assoc: "cmul f (cmul f u v) w = cmul f u (cmul f v w)"
proof
  fix k
  let ?g = "\<lambda>a b c. gm f (gm f (u a) (v b)) (w c)"
  have "cmul f (cmul f u v) w k = (\<Sum>j\<le>k. \<Sum>i\<le>j. ?g i (j - i) (k - j))"
    by (simp add: cmul_def gm_sum_left)
  also have "\<dots> = (\<Sum>(j, i)\<in>(SIGMA j:{..k}. {..j}). ?g i (j - i) (k - j))"
    by (simp add: sum.Sigma)
  also have "\<dots> = (\<Sum>(i, l)\<in>(SIGMA i:{..k}. {..k - i}). ?g i l (k - i - l))"
    by (rule sum.reindex_bij_witness[of _ "\<lambda>(i, l). (i + l, i)" "\<lambda>(j, i). (i, j - i)"]) auto
  also have "\<dots> = (\<Sum>i\<le>k. \<Sum>l\<le>k - i. ?g i l (k - i - l))"
    by (simp add: sum.Sigma)
  also have "\<dots> = cmul f u (cmul f v w) k"
    by (simp add: cmul_def gm_sum_right gm_assoc)
  finally show "cmul f (cmul f u v) w k = cmul f u (cmul f v w) k" .
qed

lemma cmul_left_commute: "cmul f u (cmul f v w) = cmul f v (cmul f u w)"
  by (metis cmul_assoc cmul_commute)

lemmas cmul_ac = cmul_assoc cmul_commute cmul_left_commute

lemma csm_cadd: "csm f c (cadd u v) = cadd (csm f c u) (csm f c v)"
  by (simp add: csm_def cadd_def gm_add_right)

lemma csm_csm: "csm f a (csm f b u) = csm f (gm f a b) u"
  by (simp add: csm_def gm_assoc)

lemma csm_1 [simp]: "proper_GF256 f \<Longrightarrow> csm f g1 u = u"
  by (simp add: csm_def)

lemma csm_0 [simp]: "csm f 0 u = c0" "csm f c c0 = c0"
  by (simp_all add: csm_def c0_def)

lemma cshift_0 [simp]: "cshift 0 u = u"
  by (simp add: cshift_def)

lemma cshift_c0 [simp]: "cshift d c0 = c0"
  by (simp add: cshift_def c0_def)

lemma cshift_cadd: "cshift d (cadd u v) = cadd (cshift d u) (cshift d v)"
  by (auto simp: cshift_def cadd_def)

lemma cshift_inject: "cshift d u = cshift d v \<Longrightarrow> u = v"
proof
  fix k
  assume "cshift d u = cshift d v"
  then have "cshift d u (k + d) = cshift d v (k + d)" by simp
  then show "u k = v k" by (simp add: cshift_def)
qed

lemma cmul_cmon_1 [simp]: "proper_GF256 f \<Longrightarrow> cmul f (cmon g1 0) u = u"
  by (simp add: cmul_cmon)

lemma agree_refl [simp]: "agree R u u"
  by (simp add: agree_def)

lemma agree_sym: "agree R u v \<Longrightarrow> agree R v u"
  by (simp add: agree_def)

lemma agree_trans: "agree R u v \<Longrightarrow> agree R v w \<Longrightarrow> agree R u w"
  by (simp add: agree_def)

lemma agree_cadd: "agree R u u' \<Longrightarrow> agree R v v' \<Longrightarrow> agree R (cadd u v) (cadd u' v')"
  by (simp add: agree_def cadd_def)

lemma agree_cmul: "agree R u u' \<Longrightarrow> agree R v v' \<Longrightarrow> agree R (cmul f u v) (cmul f u' v')"
  by (simp add: agree_def cmul_def)

lemma agree_csm: "agree R u u' \<Longrightarrow> agree R (csm f c u) (csm f c u')"
  by (simp add: agree_def csm_def)

lemma agree_bnd_eq: "agree R u v \<Longrightarrow> bnd R u \<Longrightarrow> bnd R v \<Longrightarrow> u = v"
  by (rule ext) (metis agree_def bnd_def not_le)

lemma agree_cshift_c0: "agree R (cshift R u) c0"
  by (simp add: agree_def cshift_def c0_def)

lemma agree_c0_cshift:
  assumes "agree R u c0"
  shows "u = cshift R (\<lambda>k. u (k + R))"
  using assms by (auto simp: agree_def cshift_def c0_def fun_eq_iff)

section \<open>Degrees, products of linear factors, and the root bound\<close>

definition deg_eq :: "gpoly \<Rightarrow> nat \<Rightarrow> bool" where
  "deg_eq u d \<longleftrightarrow> bnd (Suc d) u \<and> u d \<noteq> 0"

lemma bnd_c0 [simp]: "bnd n c0"
  by (simp add: bnd_def c0_def)

lemma bnd_0_iff: "bnd 0 u \<longleftrightarrow> u = c0"
  by (auto simp: bnd_def c0_def)

lemma bnd_cmon: "d < n \<Longrightarrow> bnd n (cmon c d)"
  by (simp add: bnd_def cmon_def)

lemma bnd_Suc: "bnd (Suc n) u \<Longrightarrow> u n = 0 \<Longrightarrow> bnd n u"
  by (metis bnd_def le_antisym not_less_eq_eq)

lemma deg_ex: "bnd n u \<Longrightarrow> u \<noteq> c0 \<Longrightarrow> \<exists>d<n. deg_eq u d"
proof (induction n)
  case 0
  then show ?case by (simp add: bnd_0_iff)
next
  case (Suc n)
  show ?case
  proof (cases "u n = 0")
    case True
    then have "bnd n u" using Suc.prems(1) by (rule bnd_Suc[rotated])
    then show ?thesis using Suc.IH Suc.prems(2) by (meson less_Suc_eq)
  next
    case False
    then show ?thesis using Suc.prems(1) by (auto simp: deg_eq_def)
  qed
qed

lemma deg_eq_unique: "deg_eq u a \<Longrightarrow> deg_eq u b \<Longrightarrow> a = b"
  by (metis bnd_def deg_eq_def not_less_eq_eq le_antisym nat_le_linear)

lemma deg_eq_bnd: "deg_eq u d \<Longrightarrow> bnd n u \<Longrightarrow> d < n"
  by (metis bnd_def deg_eq_def not_le)

lemma cmul_top:
  assumes "bnd (Suc a) u" "bnd (Suc b) v"
  shows "cmul f u v (a + b) = gm f (u a) (v b)"
proof -
  have "(\<Sum>i\<le>a + b. gm f (u i) (v (a + b - i))) = (\<Sum>i\<in>{a}. gm f (u i) (v (a + b - i)))"
  proof (rule sum.mono_neutral_right)
    show "\<forall>i\<in>{..a + b} - {a}. gm f (u i) (v (a + b - i)) = 0"
    proof
      fix i assume i: "i \<in> {..a + b} - {a}"
      show "gm f (u i) (v (a + b - i)) = 0"
      proof (cases "i < a")
        case True
        then have "Suc b \<le> a + b - i" by linarith
        then show ?thesis using assms(2) by (simp add: bnd_def)
      next
        case False
        then have "Suc a \<le> i" using i by auto
        then show ?thesis using assms(1) by (simp add: bnd_def)
      qed
    qed
  qed auto
  then show ?thesis by (simp add: cmul_def)
qed

lemma deg_eq_cmul:
  assumes pf: "proper_GF256 f" and "deg_eq u a" "deg_eq v b"
  shows "deg_eq (cmul f u v) (a + b)"
proof -
  have "bnd (Suc a + Suc b - 1) (cmul f u v)"
    using assms by (intro bnd_cmul) (simp_all add: deg_eq_def)
  moreover have "cmul f u v (a + b) \<noteq> 0"
    using assms by (simp add: cmul_top deg_eq_def gm_eq_0_iff)
  ultimately show ?thesis by (simp add: deg_eq_def)
qed

lemma cmul_eq_c0:
  assumes pf: "proper_GF256 f" and "bnd n u" "bnd m v" "cmul f u v = c0"
  shows "u = c0 \<or> v = c0"
proof (rule ccontr)
  assume "\<not> (u = c0 \<or> v = c0)"
  then obtain a b where "deg_eq u a" "deg_eq v b"
    using deg_ex assms(2,3) by blast
  then have "deg_eq (cmul f u v) (a + b)" by (rule deg_eq_cmul[OF pf])
  then show False using assms(4) by (simp add: deg_eq_def c0_def)
qed

section \<open>Products of linear factors\<close>

definition lin :: "gf \<Rightarrow> gpoly" where
  "lin X = cadd (cmon g1 0) (cmon X 1)"

fun lam :: "Generic_GF \<Rightarrow> gf list \<Rightarrow> gpoly" where
  "lam f [] = cmon g1 0"
| "lam f (X # Xs) = cmul f (lin X) (lam f Xs)"

fun gprod :: "Generic_GF \<Rightarrow> gf list \<Rightarrow> gf" where
  "gprod f [] = g1"
| "gprod f (a # as) = gm f a (gprod f as)"

lemma gprod_eq_0_iff: "proper_GF256 f \<Longrightarrow> gprod f as = 0 \<longleftrightarrow> 0 \<in> set as"
  by (induction as) (auto simp: gm_eq_0_iff)

lemma gprod_append: "proper_GF256 f \<Longrightarrow> gprod f (as @ bs) = gm f (gprod f as) (gprod f bs)"
  by (induction as) (simp_all add: gm_ac)

lemma cmul_lin: "proper_GF256 f \<Longrightarrow> cmul f (lin X) u = cadd u (csm f X (cshift 1 u))"
  by (simp add: lin_def cmul_cadd_left cmul_cmon)

lemma bnd_lin: "bnd 2 (lin X)"
  by (simp add: lin_def bnd_def cadd_def cmon_def)

lemma bnd_lam: "proper_GF256 f \<Longrightarrow> bnd (Suc (length Xs)) (lam f Xs)"
proof (induction Xs)
  case Nil
  then show ?case by (simp add: bnd_cmon)
next
  case (Cons X Xs)
  have "bnd (2 + Suc (length Xs) - 1) (cmul f (lin X) (lam f Xs))"
    using Cons by (intro bnd_cmul bnd_lin) simp
  then show ?case by simp
qed

lemma lam_0: "proper_GF256 f \<Longrightarrow> lam f Xs 0 = g1"
  by (induction Xs) (simp_all add: cmon_def cmul_lin cadd_def csm_def cshift_def)

lemma lam_top: "proper_GF256 f \<Longrightarrow> lam f Xs (length Xs) = gprod f Xs"
proof (induction Xs)
  case Nil
  then show ?case by (simp add: cmon_def)
next
  case (Cons X Xs)
  have "lam f Xs (Suc (length Xs)) = 0"
    using bnd_lam[OF Cons.prems, of Xs] by (simp add: bnd_def)
  then show ?case using Cons by (simp add: cmul_lin cadd_def csm_def cshift_def)
qed

lemma cev_cmon: "d < n \<Longrightarrow> cev f (cmon c d) n x = gm f c (gp f x d)"
proof -
  assume d: "d < n"
  have "(\<Sum>k<n. gm f (cmon c d k) (gp f x k)) = (\<Sum>k<n. if k = d then gm f c (gp f x d) else 0)"
    by (intro sum.cong) (auto simp: cmon_def)
  then show ?thesis using d by (simp add: cev_def sum.delta)
qed

lemma cev_c0 [simp]: "cev f c0 n x = 0"
  by (simp add: cev_def c0_def)

lemma cev_lin: "proper_GF256 f \<Longrightarrow> 2 \<le> n \<Longrightarrow> cev f (lin X) n z = g1 + gm f X z"
  by (simp add: lin_def cev_cadd cev_cmon)

lemma cev_cmul_le:
  assumes pf: "proper_GF256 f" and u: "bnd n u" and v: "bnd m v" and N: "n + m \<le> Suc N"
  shows "cev f (cmul f u v) N x = gm f (cev f u N x) (cev f v N x)"
proof (cases "n = 0 \<or> m = 0")
  case True
  then have "u = c0 \<or> v = c0" using u v by (auto simp: bnd_0_iff)
  then show ?thesis by auto
next
  case False
  then have le: "n \<le> N" "m \<le> N" "n + m - 1 \<le> N" using N by auto
  have b: "bnd (n + m - 1) (cmul f u v)" by (rule bnd_cmul[OF u v])
  have "cev f (cmul f u v) N x = cev f (cmul f u v) (n + m - 1) x"
    by (rule cev_extend[OF b le(3)])
  also have "\<dots> = cev f (cmul f u v) (n + m) x"
    by (rule cev_extend[OF b, symmetric]) simp
  also have "\<dots> = gm f (cev f u n x) (cev f v m x)" by (rule cev_cmul[OF pf u v])
  finally show ?thesis by (simp add: cev_extend[OF u le(1)] cev_extend[OF v le(2)])
qed

lemma cev_lam:
  assumes pf: "proper_GF256 f"
  shows "length Xs < N \<Longrightarrow> cev f (lam f Xs) N z = gprod f (map (\<lambda>X. g1 + gm f X z) Xs)"
proof (induction Xs)
  case Nil
  then show ?case using pf by (simp add: cev_cmon)
next
  case (Cons X Xs)
  have "cev f (lam f (X # Xs)) N z = gm f (cev f (lin X) N z) (cev f (lam f Xs) N z)"
    using Cons.prems by (simp add: cev_cmul_le[OF pf bnd_lin bnd_lam[OF pf]])
  then show ?case using Cons pf by (simp add: cev_lin)
qed

lemma lin_root: "proper_GF256 f \<Longrightarrow> X \<noteq> 0 \<Longrightarrow> g1 + gm f X (ginv f X) = 0"
  by (simp add: gm_ginv)

lemma lin_root_iff:
  assumes pf: "proper_GF256 f" and X: "X \<noteq> 0"
  shows "g1 + gm f X' (ginv f X) = 0 \<longleftrightarrow> X' = X"
proof
  assume "g1 + gm f X' (ginv f X) = 0"
  then have "gm f X' (ginv f X) = g1" by (simp add: gf_add_eq_0)
  then have "gm f (gm f X' (ginv f X)) X = X" using pf by simp
  then show "X' = X" using pf X by (simp add: gm_assoc gm_commute[of f "ginv f X"] gm_ginv)
qed (simp add: lin_root[OF pf X])

lemma cev_lam_root:
  assumes pf: "proper_GF256 f" and "X \<in> set Xs" "X \<noteq> 0" "length Xs < N"
  shows "cev f (lam f Xs) N (ginv f X) = 0"
  using assms by (simp add: cev_lam gprod_eq_0_iff lin_root_iff image_iff)

lemma cev_lam_nonroot:
  assumes pf: "proper_GF256 f" and "X \<notin> set Xs" "X \<noteq> 0" "length Xs < N"
  shows "cev f (lam f Xs) N (ginv f X) \<noteq> 0"
  using assms by (auto simp: cev_lam gprod_eq_0_iff lin_root_iff image_iff)

lemma root_bound:
  assumes pf: "proper_GF256 f"
  shows "distinct Xs \<Longrightarrow> \<forall>X\<in>set Xs. X \<noteq> 0 \<and> cev f u (length Xs) (ginv f X) = 0 \<Longrightarrow>
         bnd (length Xs) u \<Longrightarrow> u = c0"
proof (induction Xs arbitrary: u)
  case Nil
  then show ?case by (simp add: bnd_0_iff)
next
  case (Cons X Xs)
  let ?n = "length Xs"
  let ?L = "lam f Xs"
  have nz: "\<forall>X\<in>set Xs. X \<noteq> 0" using Cons.prems(2) by simp
  have X: "X \<noteq> 0" "X \<notin> set Xs" using Cons.prems(1,2) by auto
  have Ln: "?L ?n \<noteq> 0" using nz by (auto simp: lam_top[OF pf] gprod_eq_0_iff[OF pf])
  define c where "c = gm f (u ?n) (ginv f (?L ?n))"
  define v where "v = cadd u (csm f c ?L)"
  have "gm f c (?L ?n) = u ?n"
    using Ln by (simp add: c_def gm_assoc gm_commute[of f "ginv f _"] gm_ginv[OF pf] pf)
  then have "v ?n = 0" by (simp add: v_def cadd_def csm_def)
  moreover have "bnd (Suc ?n) v"
    unfolding v_def using Cons.prems(3) bnd_lam[OF pf, of Xs] by (intro bnd_cadd bnd_csm) simp_all
  ultimately have bv: "bnd ?n v" by (rule bnd_Suc[rotated])
  have "\<forall>X'\<in>set Xs. X' \<noteq> 0 \<and> cev f v ?n (ginv f X') = 0"
  proof
    fix X' assume X': "X' \<in> set Xs"
    have "cev f v ?n (ginv f X') = cev f v (Suc ?n) (ginv f X')"
      by (rule cev_extend[OF bv, symmetric]) simp
    also have "\<dots> = 0"
      using Cons.prems(2) X' nz by (simp add: v_def cev_cadd cev_csm cev_lam_root[OF pf])
    finally show "X' \<noteq> 0 \<and> cev f v ?n (ginv f X') = 0" using nz X' by simp
  qed
  then have "v = c0" using Cons.IH[of v] Cons.prems(1) bv by simp
  then have u: "u = csm f c ?L" by (simp add: v_def cadd_eq_c0)
  have "cev f u (Suc ?n) (ginv f X) = 0" using Cons.prems(2) by simp
  then have "gm f c (cev f ?L (Suc ?n) (ginv f X)) = 0" by (simp add: u cev_csm)
  then have "c = 0" using cev_lam_nonroot[OF pf X(2,1), of "Suc ?n"] by (simp add: gm_eq_0_iff[OF pf])
  then show ?case by (simp add: u)
qed

section \<open>The key equation and its unique solution\<close>

fun omg :: "Generic_GF \<Rightarrow> (gf \<times> gf) list \<Rightarrow> gpoly" where
  "omg f [] = c0"
| "omg f (e # es) =
     cadd (csm f (snd e) (lam f (map fst es))) (cmul f (lin (fst e)) (omg f es))"

fun syn :: "Generic_GF \<Rightarrow> (gf \<times> gf) list \<Rightarrow> gpoly" where
  "syn f [] = c0"
| "syn f (e # es) = cadd (csm f (snd e) (gp f (fst e))) (syn f es)"

lemma lin_geom:
  assumes pf: "proper_GF256 f"
  shows "cmul f (lin X) (gp f X) = cmon g1 0"
proof
  fix k
  show "cmul f (lin X) (gp f X) k = cmon g1 0 k"
  proof (cases k)
    case 0
    then show ?thesis by (simp add: cmul_lin[OF pf] cadd_def csm_def cshift_def cmon_def)
  next
    case (Suc j)
    then show ?thesis by (simp add: cmul_lin[OF pf] cadd_def csm_def cshift_def cmon_def)
  qed
qed

lemma key_equation:
  assumes pf: "proper_GF256 f"
  shows "cmul f (lam f (map fst es)) (syn f es) = omg f es"
proof (induction es)
  case Nil
  then show ?case by simp
next
  case (Cons e es)
  let ?L = "lam f (map fst es)"
  have "cmul f (cmul f (lin (fst e)) ?L) (csm f (snd e) (gp f (fst e)))
          = csm f (snd e) (cmul f ?L (cmul f (lin (fst e)) (gp f (fst e))))"
    by (simp add: cmul_csm_right cmul_ac)
  also have "\<dots> = csm f (snd e) ?L"
    by (simp add: lin_geom[OF pf] cmul_commute[of f ?L] pf)
  finally have a: "cmul f (cmul f (lin (fst e)) ?L) (csm f (snd e) (gp f (fst e)))
                     = csm f (snd e) ?L" .
  have b: "cmul f (cmul f (lin (fst e)) ?L) (syn f es) = cmul f (lin (fst e)) (omg f es)"
    by (simp add: cmul_assoc Cons.IH)
  show ?case by (simp add: cmul_cadd_right a b)
qed

lemma bnd_omg:
  assumes pf: "proper_GF256 f"
  shows "bnd (length es) (omg f es)"
proof (induction es)
  case Nil
  then show ?case by simp
next
  case (Cons e es)
  have "bnd (2 + length es - 1) (cmul f (lin (fst e)) (omg f es))"
    by (intro bnd_cmul bnd_lin Cons)
  moreover have "bnd (Suc (length es)) (csm f (snd e) (lam f (map fst es)))"
    using bnd_lam[OF pf, of "map fst es"] by (intro bnd_csm) simp
  ultimately show ?case by (simp add: bnd_cadd)
qed

lemma cev_omg:
  assumes pf: "proper_GF256 f"
  shows "distinct (map fst (es1 @ (X, Y) # es2)) \<Longrightarrow> X \<noteq> 0 \<Longrightarrow>
         length (es1 @ (X, Y) # es2) < N \<Longrightarrow>
         cev f (omg f (es1 @ (X, Y) # es2)) N (ginv f X)
           = gm f Y (gprod f (map (\<lambda>X'. g1 + gm f X' (ginv f X)) (map fst (es1 @ es2))))"
proof (induction es1)
  case Nil
  have "cev f (cmul f (lin X) (omg f es2)) N (ginv f X)
          = gm f (cev f (lin X) N (ginv f X)) (cev f (omg f es2) N (ginv f X))"
    using Nil.prems by (intro cev_cmul_le[OF pf bnd_lin bnd_omg[OF pf]]) simp
  also have "\<dots> = 0" using Nil.prems by (simp add: cev_lin[OF pf] lin_root[OF pf])
  finally show ?case using Nil.prems by (simp add: cev_cadd cev_csm cev_lam[OF pf])
next
  case (Cons e es1)
  let ?es = "es1 @ (X, Y) # es2"
  have "cev f (lam f (map fst ?es)) N (ginv f X) = 0"
    using Cons.prems by (intro cev_lam_root[OF pf]) auto
  moreover have "cev f (cmul f (lin (fst e)) (omg f ?es)) N (ginv f X)
          = gm f (cev f (lin (fst e)) N (ginv f X)) (cev f (omg f ?es) N (ginv f X))"
    using Cons.prems by (intro cev_cmul_le[OF pf bnd_lin bnd_omg[OF pf]]) simp
  moreover have "cev f (omg f ?es) N (ginv f X)
          = gm f Y (gprod f (map (\<lambda>X'. g1 + gm f X' (ginv f X)) (map fst (es1 @ es2))))"
    using Cons.prems by (intro Cons.IH) simp_all
  ultimately show ?case
    using Cons.prems by (simp add: cev_cadd cev_csm cev_lin[OF pf] gm_ac)
qed

lemma cev_omg_nonzero:
  assumes pf: "proper_GF256 f" and d: "distinct (map fst es)"
    and nz: "\<forall>e\<in>set es. fst e \<noteq> 0 \<and> snd e \<noteq> 0" and e: "e \<in> set es" and N: "length es < N"
  shows "cev f (omg f es) N (ginv f (fst e)) \<noteq> 0"
proof -
  obtain es1 es2 where s: "es = es1 @ (fst e, snd e) # es2"
    using e by (metis split_list prod.collapse)
  have X: "fst e \<noteq> 0" "snd e \<noteq> 0" using nz e by auto
  have "fst e \<notin> set (map fst (es1 @ es2))" using d unfolding s by auto
  then have "gprod f (map (\<lambda>X'. g1 + gm f X' (ginv f (fst e))) (map fst (es1 @ es2))) \<noteq> 0"
    by (auto simp: gprod_eq_0_iff[OF pf] lin_root_iff[OF pf X(1)] image_iff)
  then show ?thesis
    using cev_omg[OF pf, of es1 "fst e" "snd e" es2 N] d N X unfolding s
    by (simp add: gm_eq_0_iff[OF pf])
qed

lemma euclid_unique:
  assumes pf: "proper_GF256 f"
    and d: "distinct (map fst es)"
    and nz: "\<forall>e\<in>set es. fst e \<noteq> 0 \<and> snd e \<noteq> 0"
    and nu: "2 * length es \<le> R"
    and S: "agree R S (syn f es)"
    and A1: "agree R (cmul f t S) r"
    and A2: "agree R (cmul f tp S) rp"
    and B: "cadd (cmul f rp t) (cmul f r tp) = cmon g1 R"
    and bt: "bnd (R div 2 + 1) t"
    and br: "bnd m r" "2 * m \<le> R + 1"
    and bl: "bnd M tp" "bnd M rp"
  shows "\<exists>c. c \<noteq> 0 \<and> lam f (map fst es) = csm f c t \<and> omg f es = csm f c r"
proof -
  let ?L = "lam f (map fst es)"
  let ?O = "omg f es"
  let ?n = "length es"
  have bL: "bnd (Suc ?n) ?L" using bnd_lam[OF pf, of "map fst es"] by simp
  have bO: "bnd ?n ?O" by (rule bnd_omg[OF pf])
  have key: "cmul f ?L (syn f es) = ?O" by (rule key_equation[OF pf])
  have tS: "agree R (cmul f t (syn f es)) r"
    using agree_trans[OF agree_cmul[OF agree_refl agree_sym[OF S]] A1] .
  have tpS: "agree R (cmul f tp (syn f es)) rp"
    using agree_trans[OF agree_cmul[OF agree_refl agree_sym[OF S]] A2] .
  have E1: "cmul f t ?O = cmul f ?L r"
  proof (rule agree_bnd_eq)
    have "cmul f t ?O = cmul f ?L (cmul f t (syn f es))"
      by (simp add: key[symmetric] cmul_ac)
    then show "agree R (cmul f t ?O) (cmul f ?L r)"
      using agree_cmul[OF agree_refl tS, of f ?L] by simp
    have "bnd (R div 2 + 1 + ?n - 1) (cmul f t ?O)" by (rule bnd_cmul[OF bt bO])
    then show "bnd R (cmul f t ?O)" by (rule bnd_mono) (use nu in linarith)
    have "bnd (Suc ?n + m - 1) (cmul f ?L r)" by (rule bnd_cmul[OF bL br(1)])
    then show "bnd R (cmul f ?L r)" by (rule bnd_mono) (use nu br(2) in linarith)
  qed
  define w where "w = cadd (cmul f rp ?L) (cmul f ?O tp)"
  have "cmul f (cmul f tp (syn f es)) ?L = cmul f ?O tp"
    by (simp add: key[symmetric] cmul_ac)
  then have "agree R (cmul f ?O tp) (cmul f rp ?L)"
    using agree_cmul[OF tpS agree_refl, of f ?L] by simp
  then have w0: "agree R w c0"
    unfolding w_def using agree_cadd[OF agree_refl, of R "cmul f ?O tp" "cmul f rp ?L" "cmul f rp ?L"]
    by (simp add: agree_def cadd_def c0_def)
  have "cmul f t w = cadd (cmul f ?L (cmul f rp t)) (cmul f (cmul f t ?O) tp)"
    by (simp add: w_def cmul_cadd_right cmul_ac)
  also have "\<dots> = cmul f ?L (cadd (cmul f rp t) (cmul f r tp))"
    by (simp add: E1 cmul_cadd_right cmul_ac)
  also have "\<dots> = cshift R ?L"
    by (simp add: B cmul_commute[of f ?L] cmul_cmon pf)
  finally have tw: "cmul f t w = cshift R ?L" .
  define w' where "w' = (\<lambda>k. w (k + R))"
  have w: "w = cshift R w'" unfolding w'_def by (rule agree_c0_cshift[OF w0])
  have tw': "cmul f t w' = ?L"
    using tw unfolding w by (simp add: cmul_cshift_right cshift_inject)
  have "bnd (M + Suc ?n - 1) (cmul f rp ?L)" by (rule bnd_cmul[OF bl(2) bL])
  moreover have "bnd (?n + M - 1) (cmul f ?O tp)" by (rule bnd_cmul[OF bO bl(1)])
  ultimately have "bnd (M + ?n) w"
    unfolding w_def by (intro bnd_cadd) (auto elim: bnd_mono)
  then have bw': "bnd (M + ?n) w'" by (simp add: bnd_def w'_def)
  have L0: "?L \<noteq> c0" using lam_0[OF pf, of "map fst es"] by (auto simp: c0_def)
  have t0: "t \<noteq> c0" and w'0: "w' \<noteq> c0" using tw' L0 by auto
  obtain dt where dt: "deg_eq t dt" using deg_ex[OF bt t0] by blast
  obtain dw where dw: "deg_eq w' dw" using deg_ex[OF bw' w'0] by blast
  have "?L ?n \<noteq> 0"
    using nz lam_top[OF pf, of "map fst es"] by (auto simp: gprod_eq_0_iff[OF pf])
  then have "deg_eq ?L ?n" using bL by (simp add: deg_eq_def)
  then have sum: "dt + dw = ?n"
    using deg_eq_cmul[OF pf dt dw] unfolding tw' by (rule deg_eq_unique[rotated])
  have "cmul f t (cadd ?O (cmul f w' r)) = cadd (cmul f ?L r) (cmul f (cmul f t w') r)"
    by (simp add: cmul_cadd_right E1 cmul_assoc)
  then have "cmul f t (cadd ?O (cmul f w' r)) = c0" by (simp add: tw')
  moreover have "bnd (?n + (M + ?n + m)) (cadd ?O (cmul f w' r))"
    using bnd_cmul[OF bw' br(1), of f] bO by (intro bnd_cadd) (auto elim: bnd_mono)
  ultimately have "cadd ?O (cmul f w' r) = c0"
    using cmul_eq_c0[OF pf bt _ ] t0 by blast
  then have O: "?O = cmul f w' r" by (simp add: cadd_eq_c0)
  define N where "N = R + M + ?n + m + 2"
  have troot: "cev f t ?n (ginv f X) = 0" if X: "X \<in> set (map fst es)" and lt: "dt < ?n" for X
  proof -
    obtain e where e: "e \<in> set es" "X = fst e" using X by auto
    have Xnz: "X \<noteq> 0" using nz e by auto
    have "cev f ?O N (ginv f X) = gm f (cev f w' N (ginv f X)) (cev f r N (ginv f X))"
      unfolding O by (rule cev_cmul_le[OF pf bw' br(1)]) (simp add: N_def)
    moreover have "cev f ?O N (ginv f X) \<noteq> 0"
      unfolding e(2) by (rule cev_omg_nonzero[OF pf d nz e(1)]) (simp add: N_def)
    ultimately have w'nz: "cev f w' N (ginv f X) \<noteq> 0" by auto
    have "cev f ?L N (ginv f X) = gm f (cev f t N (ginv f X)) (cev f w' N (ginv f X))"
      unfolding tw'[symmetric] by (rule cev_cmul_le[OF pf bt bw']) (simp add: N_def)
    moreover have "cev f ?L N (ginv f X) = 0"
      by (rule cev_lam_root[OF pf X Xnz]) (simp add: N_def)
    ultimately have "cev f t N (ginv f X) = 0" using w'nz by (simp add: gm_eq_0_iff[OF pf])
    moreover have bn: "bnd ?n t" using dt lt by (auto simp: deg_eq_def elim: bnd_mono)
    ultimately show ?thesis using cev_extend[OF bn, of N f] by (simp add: N_def)
  qed
  have "\<not> dt < ?n"
  proof
    assume lt: "dt < ?n"
    have bn: "bnd ?n t" using dt lt by (auto simp: deg_eq_def elim: bnd_mono)
    have "t = c0"
      using root_bound[OF pf d, of t] troot[OF _ lt] nz bn by auto
    then show False using t0 by simp
  qed
  then have "dw = 0" using sum by simp
  then have w'c: "w' = cmon (w' 0) 0" and c: "w' 0 \<noteq> 0"
    using dw by (auto simp: deg_eq_def bnd_def cmon_def fun_eq_iff)
  have "?L = csm f (w' 0) t"
    using tw' by (subst (asm) w'c) (simp add: cmul_commute[of f t] cmul_cmon)
  moreover have "?O = csm f (w' 0) r"
    using O by (subst (asm) w'c) (simp add: cmul_cmon)
  ultimately show ?thesis using c by blast
qed

section \<open>The Euclidean algorithm of the decoder\<close>

definition wfp :: "int list \<Rightarrow> bool" where
  "wfp p \<longleftrightarrow> p \<noteq> [] \<and> bytes p \<and> (p = [0] \<or> hd p \<noteq> 0)"

lemma wfp_strip_zeros: "cs \<noteq> [] \<Longrightarrow> bytes cs \<Longrightarrow> wfp (strip_zeros cs)"
  using strip_zeros_normal[of cs] by (simp add: wfp_def strip_zeros_nonempty bytes_strip_zeros)

lemma wfp_zero [simp]: "wfp [0]" and wfp_one [simp]: "wfp [1]"
  by (simp_all add: wfp_def)

lemma wfp_is_zero: "wfp p \<Longrightarrow> is_zero p \<longleftrightarrow> p = [0]"
  by (auto simp: wfp_def is_zero_iff)

lemma c0_fold: "(\<lambda>k. 0) = c0"
  by (simp add: c0_def)

lemma cf_zero: "cf [0] = c0"
  by (simp add: c0_fold)

lemma cf_top: "p \<noteq> [] \<Longrightarrow> cf p (length p - 1) = of_byte (hd p)"
  by (cases p) (simp_all add: cf_def)

lemma cf_bottom: "p \<noteq> [] \<Longrightarrow> cf p 0 = of_byte (last p)"
  by (simp add: cf_def last_conv_nth)

lemma deg_eq_cf:
  assumes "wfp p" "p \<noteq> [0]"
  shows "deg_eq (cf p) (length p - 1)"
proof -
  have p: "p \<noteq> []" "hd p \<noteq> 0" "byte (hd p)" using assms by (auto simp: wfp_def bytes_hd)
  have "cf p (length p - 1) \<noteq> 0" using p by (simp only: cf_top[OF p(1)] of_byte_eq_0[OF p(3)]) simp
  moreover have "bnd (Suc (length p - 1)) (cf p)" using bnd_cf[of p] p(1) by simp
  ultimately show ?thesis by (simp add: deg_eq_def)
qed

lemma cf_eq_c0_iff:
  assumes "wfp p"
  shows "cf p = c0 \<longleftrightarrow> p = [0]"
proof
  assume z: "cf p = c0"
  show "p = [0]"
  proof (rule ccontr)
    assume "p \<noteq> [0]"
    then have "deg_eq (cf p) (length p - 1)" by (rule deg_eq_cf[OF assms])
    then show False unfolding z by (simp add: deg_eq_def c0_def)
  qed
qed (simp add: c0_fold)

lemma add_or_subtract_ok:
  assumes a: "wfp a" and b: "wfp b"
  shows "\<exists>s. add_or_subtract a b = Inr s \<and> wfp s \<and> cf s = cadd (cf a) (cf b)"
proof (cases "is_zero a")
  case True
  then show ?thesis using a b by (simp add: add_or_subtract_def wfp_is_zero c0_fold)
next
  case na: False
  show ?thesis
  proof (cases "is_zero b")
    case True
    then show ?thesis using na a b by (simp add: add_or_subtract_def wfp_is_zero c0_fold)
  next
    case nb: False
    show ?thesis
    proof (cases "length a > length b")
      case True
      let ?s = "take (length a - length b) a @ map2 (XOR) b (drop (length a - length b) a)"
      have ne: "?s \<noteq> []" using True by auto
      have bs: "bytes ?s" using a b by (auto simp: wfp_def intro!: bytes_map2_xor bytes_take bytes_drop)
      have "add_or_subtract a b = Inr (strip_zeros ?s)"
        using na nb True ne by (simp add: add_or_subtract_def Generic_GF_Poly_eq Let_def)
      moreover have "cf (strip_zeros ?s) = cadd (cf b) (cf a)"
        using cf_aligned_sum[of b a] True a b by (simp add: wfp_def)
      ultimately show ?thesis using wfp_strip_zeros[OF ne bs] by (simp add: cadd_commute)
    next
      case False
      let ?s = "take (length b - length a) b @ map2 (XOR) a (drop (length b - length a) b)"
      have ne: "?s \<noteq> []" using a False by (auto simp: wfp_def)
      have bs: "bytes ?s" using a b by (auto simp: wfp_def intro!: bytes_map2_xor bytes_take bytes_drop)
      have "add_or_subtract a b = Inr (strip_zeros ?s)"
        using na nb False ne by (simp add: add_or_subtract_def Generic_GF_Poly_eq Let_def)
      moreover have "cf (strip_zeros ?s) = cadd (cf a) (cf b)"
        using cf_aligned_sum[of a b] False a b by (simp add: wfp_def)
      ultimately show ?thesis using wfp_strip_zeros[OF ne bs] by simp
    qed
  qed
qed

lemma multiply_poly_ok:
  assumes pf: "proper_GF256 f" and a: "wfp a" and b: "wfp b"
  shows "\<exists>s. multiply_poly f a b = Inr s \<and> wfp s \<and> cf s = cmul f (cf a) (cf b)"
proof -
  have ne: "a \<noteq> []" "b \<noteq> []" "bytes a" "bytes b" using a b by (auto simp: wfp_def)
  have m: "multiply_poly f a b = Inr (pmul f a b)" by (rule multiply_poly_eq[OF ne(1,2)])
  show ?thesis
  proof (cases "is_zero a \<or> is_zero b")
    case True
    then have "cf a = c0 \<or> cf b = c0" using a b by (auto simp: wfp_is_zero c0_fold)
    then have "cmul f (cf a) (cf b) = c0" by auto
    then show ?thesis using True m by (simp add: pmul_def c0_fold)
  next
    case False
    have "product_array f a b \<noteq> []"
      using length_product_array[OF ne(1,2), of f] ne(1,2) by (cases a) auto
    then have "wfp (pmul f a b)"
      using False bytes_product_array[OF pf ne] by (simp add: pmul_def wfp_strip_zeros)
    moreover have "cf (pmul f a b) = cmul f (cf a) (cf b)"
      using False by (simp add: pmul_def cf_product_array[OF pf ne(1,3,2,4)])
    ultimately show ?thesis using m by simp
  qed
qed

lemma multiply_scalar_ok:
  assumes pf: "proper_GF256 f" and p: "wfp p" and c: "byte c"
  shows "\<exists>s. multiply_scalar f p c = Inr s \<and> wfp s \<and> cf s = csm f (of_byte c) (cf p)"
proof -
  have ne: "p \<noteq> []" "bytes p" using p by (auto simp: wfp_def)
  let ?m = "map (\<lambda>x. gmul f x c) p"
  have bm: "bytes ?m" using ne(2) c by (auto simp: bytes_def list_all_iff intro: byte_gmul[OF pf])
  have "multiply_scalar f p c = (if c = 0 then Inr [0] else if c = 1 then Inr p
          else Inr (strip_zeros ?m))"
    using ne(1) by (simp add: multiply_scalar_def Generic_GF_Poly_eq gmul_def)
  moreover have "cf (strip_zeros ?m) = csm f (of_byte c) (cf p)"
    using cf_map_gmul[OF pf ne(2) c] by simp
  moreover have "wfp (strip_zeros ?m)" using ne(1) bm by (intro wfp_strip_zeros) simp_all
  ultimately show ?thesis using p pf by (auto simp: c0_fold)
qed

lemma csm_cshift: "csm f c (cshift d u) = cshift d (csm f c u)"
  by (auto simp: csm_def cshift_def)

lemma cf_monomial: "byte c \<Longrightarrow> cf (c # replicate d 0) = cmon (of_byte c) d"
  by (auto simp: cf_Cons cmon_def cf_def)

lemma cf_div_rem:
  assumes pf: "proper_GF256 f"
    and oth: "bytes other" and inv: "byte dlt_inverse"
    and r: "r \<noteq> []" "bytes r" "length other \<le> length r"
  shows "cf (div_rem f other dlt_inverse r)
           = cadd (cf r) (cshift (length r - length other)
                            (csm f (of_byte (gmul f (hd r) dlt_inverse)) (cf other)))"
proof -
  have l: "length r = length (div_term f other dlt_inverse r)" using r(3) by (simp add: div_term_def)
  have b: "bytes (div_term f other dlt_inverse r)" by (rule bytes_div_term[OF pf oth inv r(2,1)])
  show ?thesis
    unfolding div_rem_def cf_strip_zeros cf_map2_xor[OF l r(2) b] cf_div_term[OF pf oth inv r(2,1)] ..
qed

lemma euclid_inner_step_ok:
  assumes pf: "proper_GF256 f"
    and rl: "wfp r_last" "r_last \<noteq> [0]"
    and inv: "byte dlt_inverse" "gmul f (hd r_last) dlt_inverse = 1"
    and r: "wfp r" "r \<noteq> [0]" "length r_last \<le> length r"
    and q: "wfp q"
  shows "\<exists>q'. euclid_inner_step f r_last (Num dlt_inverse) (q, r)
                = Inr (q', div_rem f r_last dlt_inverse r) \<and> wfp q' \<and>
              cf q' = cadd (cf q) (cmon (of_byte (gmul f (hd r) dlt_inverse))
                                     (length r - length r_last))"
proof -
  let ?dd = "length r - length r_last"
  let ?s = "gmul f (hd r) dlt_inverse"
  have oth: "r_last \<noteq> []" "bytes r_last" "hd r_last \<noteq> 0" using rl by (auto simp: wfp_def)
  have rr: "r \<noteq> []" "bytes r" "hd r \<noteq> 0" using r by (auto simp: wfp_def)
  have bh: "byte (hd r)" "byte (hd r_last)" using rr oth by (auto intro: bytes_hd)
  have inz: "dlt_inverse \<noteq> 0" using inv(2) by auto
  have snz: "?s \<noteq> 0" using gmul_nonzero[OF pf bh(1) inv(1) rr(3) inz] .
  have bs: "byte ?s" using byte_gmul[OF pf bh(1) inv(1)] .
  have deg: "degree r - degree r_last = int ?dd" using r(3) by (simp add: degree_def)
  have scale: "multiply_GF f (get_coefficient r (degree r)) (Num dlt_inverse) = Num ?s"
    using rr(1) multiply_GF_Num[OF pf bh(1) inv(1)] by (simp add: get_coefficient_degree)
  let ?t = "div_term f r_last dlt_inverse r"
  have "gmul f (hd r_last) ?s = gmul f (gmul f (hd r_last) dlt_inverse) (hd r)"
    using gmul_assoc[OF pf bh(2) inv(1) bh(1)] by (simp add: gmul_commute[of f "hd r"])
  also have "\<dots> = hd r" using inv(2) gmul_1_left[OF pf bh(1)] by simp
  finally have lead: "gmul f (hd r_last) ?s = hd r" .
  have hdt: "hd ?t = hd r" using oth(1) lead by (cases r_last) (simp_all add: div_term_def)
  have lt: "length ?t = length r" using r(3) by (simp add: div_term_def)
  have tm: "multiply_by_monomial f r_last (int ?dd) (Num ?s) = Inr ?t"
    using multiply_by_monomial_Num[OF oth(1) _ snz, of "int ?dd" f] hdt rr(3)
    by (simp add: div_term_def strip_zeros_id)
  have iq: "build_monomial (int ?dd) (Num ?s) = Inr (?s # replicate ?dd 0)"
    using build_monomial_Num[OF _ snz, of "int ?dd"] by simp
  have tne: "?t \<noteq> []" using lt rr(1) by auto
  have zt: "\<not> is_zero ?t" using hdt rr(3) tne by (simp add: is_zero_iff)
  have zr: "\<not> is_zero r" using rr by (simp add: is_zero_iff)
  have rem: "add_or_subtract r ?t = Inr (div_rem f r_last dlt_inverse r)"
    using zt zr lt rr(1) tne
    by (simp add: add_or_subtract_def div_rem_def Let_def Generic_GF_Poly_eq)
  have wm: "wfp (?s # replicate ?dd 0)" using bs snz by (simp add: wfp_def)
  obtain q' where q': "add_or_subtract q (?s # replicate ?dd 0) = Inr q'" "wfp q'"
      "cf q' = cadd (cf q) (cf (?s # replicate ?dd 0))"
    using add_or_subtract_ok[OF q wm] by blast
  have "euclid_inner_step f r_last (Num dlt_inverse) (q, r)
          = Inr (q', div_rem f r_last dlt_inverse r)"
    by (simp add: euclid_inner_step_def Let_def deg scale tm iq q'(1) rem)
  then show ?thesis using q'(2,3) by (simp add: cf_monomial[OF bs])
qed

lemma euclid_inner_loop_ok:
  assumes pf: "proper_GF256 f"
    and rl: "wfp r_last" "r_last \<noteq> [0]"
    and inv: "byte dlt_inverse" "gmul f (hd r_last) dlt_inverse = 1"
  shows "wfp r \<Longrightarrow> wfp q \<Longrightarrow>
         \<exists>q' r'. euclid_inner_loop f r_last (Num dlt_inverse) (q, r) = Some (Inr (q', r')) \<and>
                 wfp q' \<and> wfp r' \<and> (length r' < length r_last \<or> r' = [0]) \<and>
                 cadd (cmul f (cf q') (cf r_last)) (cf r')
                   = cadd (cmul f (cf q) (cf r_last)) (cf r)"
proof (induction "length r" arbitrary: q r rule: less_induct)
  case less
  have oth: "r_last \<noteq> []" "bytes r_last" "hd r_last \<noteq> 0" using rl by (auto simp: wfp_def)
  let ?cond = "degree r \<ge> degree r_last \<and> \<not> is_zero r"
  show ?case
  proof (cases ?cond)
    case False
    then have nc: "\<not> (degree (snd (q, r)) \<ge> degree r_last \<and> \<not> is_zero (snd (q, r)))" by simp
    have "euclid_inner_loop f r_last (Num dlt_inverse) (q, r) = Some (Inr (q, r))"
      by (subst euclid_inner_loop.simps, simp only: nc if_False)
    moreover have "length r < length r_last \<or> r = [0]"
      using False less.prems(1) by (auto simp: degree_def wfp_is_zero)
    ultimately show ?thesis using less.prems by blast
  next
    case True
    then have len: "length r_last \<le> length r" and rnz: "r \<noteq> [0]"
      using less.prems(1) by (auto simp: degree_def wfp_is_zero)
    have rr: "r \<noteq> []" "bytes r" "hd r \<noteq> 0" using less.prems(1) rnz by (auto simp: wfp_def)
    let ?r1 = "div_rem f r_last dlt_inverse r"
    let ?s = "of_byte (gmul f (hd r) dlt_inverse)"
    let ?dd = "length r - length r_last"
    obtain q1 where q1: "euclid_inner_step f r_last (Num dlt_inverse) (q, r) = Inr (q1, ?r1)"
        "wfp q1" "cf q1 = cadd (cf q) (cmon ?s ?dd)"
      using euclid_inner_step_ok[OF pf rl inv less.prems(1) rnz len less.prems(2)] by blast
    have r1: "?r1 \<noteq> []" "bytes ?r1" "is_zero ?r1 \<or> length ?r1 < length r"
      using div_rem_props[OF pf oth inv rr len] by auto
    have xn: "map2 (XOR) r (div_term f r_last dlt_inverse r) \<noteq> []"
      using r1(1) by (auto simp: div_rem_def strip_zeros_def)
    have w1: "wfp ?r1"
      using r1(1,2) strip_zeros_normal[OF xn] by (simp add: wfp_def div_rem_def)
    have cf1: "cf ?r1 = cadd (cf r) (cshift ?dd (csm f ?s (cf r_last)))"
      by (rule cf_div_rem[OF pf oth(2) inv(1) rr(1,2) len])
    have inv1: "cadd (cmul f (cf q1) (cf r_last)) (cf ?r1)
                  = cadd (cmul f (cf q) (cf r_last)) (cf r)"
      by (simp add: q1(3) cf1 cmul_cadd_left cmul_cmon csm_cshift cadd_ac)
    have unf: "euclid_inner_loop f r_last (Num dlt_inverse) (q, r)
                 = euclid_inner_loop f r_last (Num dlt_inverse) (q1, ?r1)"
      using True by (subst euclid_inner_loop.simps) (simp add: q1(1))
    show ?thesis
    proof (cases "is_zero ?r1")
      case True
      then have nc: "\<not> (degree (snd (q1, ?r1)) \<ge> degree r_last \<and> \<not> is_zero (snd (q1, ?r1)))"
        by simp
      have "euclid_inner_loop f r_last (Num dlt_inverse) (q1, ?r1) = Some (Inr (q1, ?r1))"
        by (subst euclid_inner_loop.simps, simp only: nc if_False)
      then show ?thesis using unf q1(2) w1 inv1 True by (auto simp: wfp_is_zero)
    next
      case False
      then have l: "length ?r1 < length r" using r1(3) by blast
      from less.hyps[OF l w1 q1(2)] obtain q' r' where
        "euclid_inner_loop f r_last (Num dlt_inverse) (q1, ?r1) = Some (Inr (q', r'))"
        "wfp q'" "wfp r'" "length r' < length r_last \<or> r' = [0]"
        "cadd (cmul f (cf q') (cf r_last)) (cf r') = cadd (cmul f (cf q1) (cf r_last)) (cf ?r1)"
        by blast
      then show ?thesis using unf inv1 by auto
    qed
  qed
qed

definition euclid_inv ::
  "Generic_GF \<Rightarrow> nat \<Rightarrow> gpoly \<Rightarrow> gpoly \<times> gpoly \<times> gpoly \<times> gpoly \<Rightarrow> bool" where
  "euclid_inv f R S st =
     (case st of (a, b, ta, tb) \<Rightarrow>
        agree R (cmul f tb S) b \<and> agree R (cmul f ta S) a \<and>
        cadd (cmul f a tb) (cmul f b ta) = cmon g1 R \<and>
        (\<exists>da. deg_eq a da \<and> bnd da b \<and> R \<le> 2 * da) \<and>
        (\<exists>dt. deg_eq tb dt \<and> bnd dt ta))"

lemma euclid_inv_step:
  assumes pf: "proper_GF256 f"
    and inv: "euclid_inv f R S (a, b, ta, tb)"
    and a: "a = cadd (cmul f q b) c"
    and b: "deg_eq b db" "bnd db c" "R \<le> 2 * db"
    and q: "bnd Mq q"
  shows "euclid_inv f R S (b, c, tb, cadd (cmul f q tb) ta)"
proof -
  from inv obtain da dt where
    i1: "agree R (cmul f tb S) b" and i2: "agree R (cmul f ta S) a" and
    i3: "cadd (cmul f a tb) (cmul f b ta) = cmon g1 R" and
    i4: "deg_eq a da" "bnd da b" and i5: "deg_eq tb dt" "bnd dt ta"
    by (auto simp: euclid_inv_def)
  have "cmul f (cadd (cmul f q tb) ta) S = cadd (cmul f q (cmul f tb S)) (cmul f ta S)"
    by (simp add: cmul_cadd_left cmul_assoc)
  moreover have "agree R (cadd (cmul f q (cmul f tb S)) (cmul f ta S)) (cadd (cmul f q b) a)"
    by (intro agree_cadd agree_cmul agree_refl i1 i2)
  moreover have "cadd (cmul f q b) a = c" by (simp add: a)
  ultimately have n1: "agree R (cmul f (cadd (cmul f q tb) ta) S) c" by simp
  have n3: "cadd (cmul f b (cadd (cmul f q tb) ta)) (cmul f c tb) = cmon g1 R"
    unfolding i3[symmetric] a by (simp add: cmul_cadd_right cmul_cadd_left cmul_ac cadd_ac)
  have dba: "db < da" using b(1) i4(2) by (rule deg_eq_bnd)
  have nb1: "\<not> bnd 1 q"
  proof
    assume "bnd 1 q"
    then have "bnd (1 + Suc db - 1) (cmul f q b)"
      using b(1) by (intro bnd_cmul) (simp_all add: deg_eq_def)
    then have "bnd (Suc db) a"
      unfolding a using b(2) by (intro bnd_cadd) (auto elim: bnd_mono)
    then show False using i4(1) dba by (simp add: deg_eq_def bnd_def)
  qed
  then have "q \<noteq> c0" by auto
  then obtain dq where dq: "deg_eq q dq" using deg_ex[OF q] by blast
  have dq1: "1 \<le> dq" using dq nb1 by (cases dq) (auto simp: deg_eq_def)
  have m: "deg_eq (cmul f q tb) (dq + dt)" by (rule deg_eq_cmul[OF pf dq i5(1)])
  have z: "ta (dq + dt) = 0" using i5(2) by (simp add: bnd_def)
  have "bnd (Suc (dq + dt)) ta" using i5(2) by (rule bnd_mono) simp
  then have n5: "deg_eq (cadd (cmul f q tb) ta) (dq + dt)"
    using m z by (simp add: deg_eq_def bnd_cadd) (simp add: cadd_def)
  have n5': "bnd (dq + dt) tb"
    using i5(1) dq1 by (auto simp: deg_eq_def elim: bnd_mono)
  show ?thesis
    unfolding euclid_inv_def using n1 i1 n3 b n5 n5' by auto
qed

lemma euclid_inv_degree:
  assumes pf: "proper_GF256 f" and inv: "euclid_inv f R S (a, b, ta, tb)"
  shows "bnd (R div 2 + 1) tb"
proof -
  from inv obtain da dt where
    i3: "cadd (cmul f a tb) (cmul f b ta) = cmon g1 R" and
    i4: "deg_eq a da" "bnd da b" "R \<le> 2 * da" and i5: "deg_eq tb dt" "bnd dt ta"
    by (auto simp: euclid_inv_def)
  have "cmul f a tb (da + dt) \<noteq> 0"
    using deg_eq_cmul[OF pf i4(1) i5(1)] by (simp add: deg_eq_def)
  moreover have "cmul f b ta (da + dt) = 0"
    using bnd_cmul[OF i4(2) i5(2), of f] by (simp add: bnd_def)
  ultimately have "cmon g1 R (da + dt) \<noteq> 0"
    unfolding i3[symmetric] by (simp add: cadd_def)
  then have "da + dt = R" by (simp add: cmon_def split: if_splits)
  then have "Suc dt \<le> R div 2 + 1" using i4(3) by linarith
  then show ?thesis using i5(1) by (auto simp: deg_eq_def elim: bnd_mono)
qed

lemma inverse_of_leading:
  assumes pf: "proper_GF256 f" and p: "wfp p" "p \<noteq> [0]"
  shows "\<exists>d. inverse_GF f (get_coefficient p (degree p)) = Inr (Num d) \<and> byte d \<and>
             gmul f (hd p) d = 1"
proof -
  have h: "p \<noteq> []" "byte (hd p)" "hd p \<noteq> 0" using p by (auto simp: wfp_def bytes_hd)
  show ?thesis
    using inverse_GF_Num[OF pf h(2,3)] gmul_inverse[OF pf h(2,3)] h(1)
    by (simp add: get_coefficient_degree)
qed

lemma euclid_step_ok:
  assumes pf: "proper_GF256 f" and R: "1 \<le> R"
    and w: "wfp r_last_last" "wfp r_last" "wfp t_last_last" "wfp t_last"
    and c: "2 * degree r_last \<ge> R"
    and inv: "euclid_inv f (nat R) S (cf r_last_last, cf r_last, cf t_last_last, cf t_last)"
  shows "\<exists>r t. euclid_step f (r_last_last, r_last, t_last_last, t_last)
                 = Some (Inr (r_last, r, t_last, t)) \<and> wfp r \<and> wfp t \<and>
               length r < length r_last \<and>
               euclid_inv f (nat R) S (cf r_last, cf r, cf t_last, cf t)"
proof -
  have l2: "2 \<le> length r_last" using c R by (simp add: degree_def)
  then have nz: "r_last \<noteq> [0]" by auto
  then have niz: "\<not> is_zero r_last" using w(2) by (simp add: wfp_is_zero)
  obtain d where d: "inverse_GF f (get_coefficient r_last (degree r_last)) = Inr (Num d)"
      "byte d" "gmul f (hd r_last) d = 1"
    using inverse_of_leading[OF pf w(2) nz] by blast
  obtain q r where qr: "euclid_inner_loop f r_last (Num d) ([0], r_last_last) = Some (Inr (q, r))"
      "wfp q" "wfp r" "length r < length r_last \<or> r = [0]"
      "cadd (cmul f (cf q) (cf r_last)) (cf r)
         = cadd (cmul f (cf [0]) (cf r_last)) (cf r_last_last)"
    using euclid_inner_loop_ok[OF pf w(2) nz d(2,3) w(1) wfp_zero] by blast
  have a: "cf r_last_last = cadd (cmul f (cf q) (cf r_last)) (cf r)"
    using qr(5) by (simp add: c0_fold)
  obtain qt where qt: "multiply_poly f q t_last = Inr qt" "wfp qt"
      "cf qt = cmul f (cf q) (cf t_last)"
    using multiply_poly_ok[OF pf qr(2) w(4)] by blast
  obtain t where t: "add_or_subtract qt t_last_last = Inr t" "wfp t"
      "cf t = cadd (cf qt) (cf t_last_last)"
    using add_or_subtract_ok[OF qt(2) w(3)] by blast
  have lr: "length r < length r_last" using qr(4) l2 by auto
  then have nd: "\<not> degree r \<ge> degree r_last" by (simp add: degree_def)
  have st: "euclid_step f (r_last_last, r_last, t_last_last, t_last)
              = Some (Inr (r_last, r, t_last, t))"
    by (simp add: euclid_step_def niz d(1) qr(1) qt(1) t(1) nd)
  have db: "deg_eq (cf r_last) (length r_last - 1)" by (rule deg_eq_cf[OF w(2) nz])
  have bc: "bnd (length r_last - 1) (cf r)" using bnd_cf[of r] lr by (auto elim: bnd_mono)
  have R2: "nat R \<le> 2 * (length r_last - 1)" using c by (simp add: degree_def)
  have "euclid_inv f (nat R) S (cf r_last, cf r, cf t_last, cadd (cmul f (cf q) (cf t_last)) (cf t_last_last))"
    by (rule euclid_inv_step[OF pf inv a db bc R2 bnd_cf])
  then show ?thesis using st qr(3) t(2,3) qt(3) lr by auto
qed

lemma euclid_loop_ok:
  assumes pf: "proper_GF256 f" and R: "1 \<le> R"
  shows "wfp a \<Longrightarrow> wfp b \<Longrightarrow> wfp ta \<Longrightarrow> wfp tb \<Longrightarrow>
         euclid_inv f (nat R) S (cf a, cf b, cf ta, cf tb) \<Longrightarrow>
         \<exists>a' b' ta' tb'. euclid_loop f R (a, b, ta, tb) = Some (Inr (a', b', ta', tb')) \<and>
            wfp a' \<and> wfp b' \<and> wfp ta' \<and> wfp tb' \<and> 2 * degree b' < R \<and>
            euclid_inv f (nat R) S (cf a', cf b', cf ta', cf tb')"
proof (induction "length b" arbitrary: a b ta tb rule: less_induct)
  case less
  show ?case
  proof (cases "2 * degree b \<ge> R")
    case False
    then have nc: "\<not> 2 * degree (fst (snd (a, b, ta, tb))) \<ge> R" by simp
    have "euclid_loop f R (a, b, ta, tb) = Some (Inr (a, b, ta, tb))"
      by (subst euclid_loop.simps, simp only: nc if_False)
    then show ?thesis using less.prems False by auto
  next
    case True
    obtain r t where s: "euclid_step f (a, b, ta, tb) = Some (Inr (b, r, tb, t))"
        "wfp r" "wfp t" "length r < length b"
        "euclid_inv f (nat R) S (cf b, cf r, cf tb, cf t)"
      using euclid_step_ok[OF pf R less.prems(1-4) True less.prems(5)] by blast
    have unf: "euclid_loop f R (a, b, ta, tb) = euclid_loop f R (b, r, tb, t)"
      using True by (subst euclid_loop.simps) (simp add: s(1))
    show ?thesis
      unfolding unf by (rule less.hyps[OF s(4) less.prems(2) s(2) less.prems(4) s(3) s(5)])
  qed
qed

lemma get_coefficient_0:
  assumes "wfp p"
  shows "get_coefficient p 0 = Num (to_byte (cf p 0))"
proof -
  have p: "p \<noteq> []" "bytes p" using assms by (auto simp: wfp_def)
  have "byte (last p)" using p by (simp add: last_conv_nth bytes_nth)
  then have "to_byte (cf p 0) = last p" using p(1) by (simp add: cf_bottom)
  moreover have "nat (int (length p) - 1) = length p - 1" using p(1) by (cases p) auto
  ultimately show ?thesis using p(1) by (simp add: get_coefficient_def last_conv_nth)
qed

lemma ginv_unique:
  assumes pf: "proper_GF256 f" and "gm f c a = g1"
  shows "a \<noteq> 0" "c = ginv f a"
proof -
  show a: "a \<noteq> 0" using assms(2) by auto
  have "gm f a c = gm f a (ginv f a)" using assms(2) gm_ginv[OF pf a] by (simp add: gm_commute)
  then show "c = ginv f a" using gm_cancel_left[OF pf a] by simp
qed

lemma deg_eq_cmon: "c \<noteq> 0 \<Longrightarrow> deg_eq (cmon c d) d"
  unfolding deg_eq_def by (rule conjI, rule bnd_cmon) (simp_all add: cmon_def)

lemma run_euclidean_algorithm_ok:
  assumes pf: "proper_GF256 f" and R: "1 \<le> R"
    and d: "distinct (map fst es)"
    and nz: "\<forall>e\<in>set es. fst e \<noteq> 0 \<and> snd e \<noteq> 0"
    and nu: "2 * length es \<le> nat R"
    and s: "wfp syndrome" "length syndrome \<le> nat R"
    and S: "agree (nat R) (cf syndrome) (syn f es)"
  shows "\<exists>sigma omega.
           run_euclidean_algorithm f (1 # replicate (nat R) 0) syndrome R = Some (Inr (sigma, omega)) \<and>
           wfp sigma \<and> wfp omega \<and> cf sigma = lam f (map fst es) \<and> cf omega = omg f es"
proof -
  let ?a = "1 # replicate (nat R) 0"
  let ?R = "nat R"
  have wa: "wfp ?a" by (simp add: wfp_def)
  have cfa: "cf ?a = cmon g1 ?R" using cf_monomial[of 1 ?R] by simp
  have cf1: "cf [1] = cmon g1 0" using cf_monomial[of 1 0] by simp
  have ns: "\<not> degree ?a < degree syndrome" using s(2) R by (simp add: degree_def)
  have i1: "agree ?R (cmul f (cf [0]) (cf syndrome)) (cf ?a)"
    by (simp add: cfa agree_def cmon_def cmul_def)
  have i4: "deg_eq (cmon g1 ?R) ?R" by (simp add: deg_eq_cmon)
  have i5: "deg_eq (cmon g1 0) 0" by (simp add: deg_eq_cmon)
  have i6: "bnd ?R (cf syndrome)" using bnd_cf[of syndrome] s(2) by (rule bnd_mono)
  have init: "euclid_inv f ?R (cf syndrome) (cf ?a, cf syndrome, cf [0], cf [1])"
    unfolding euclid_inv_def using i1 i4 i5 i6 pf
    by (simp add: cfa cf1 c0_fold cmul_commute[of f _ "cmon g1 0"]) auto
  obtain a' b' ta' tb' where
    l: "euclid_loop f R (?a, syndrome, [0], [1]) = Some (Inr (a', b', ta', tb'))"
      "wfp a'" "wfp b'" "wfp ta'" "wfp tb'" "2 * degree b' < R"
      "euclid_inv f ?R (cf syndrome) (cf a', cf b', cf ta', cf tb')"
    using euclid_loop_ok[OF pf R wa s(1) wfp_zero wfp_one init] by blast
  have A1: "agree ?R (cmul f (cf tb') (cf syndrome)) (cf b')"
    and A2: "agree ?R (cmul f (cf ta') (cf syndrome)) (cf a')"
    and B: "cadd (cmul f (cf a') (cf tb')) (cmul f (cf b') (cf ta')) = cmon g1 ?R"
    using l(7) by (auto simp: euclid_inv_def)
  have bt: "bnd (?R div 2 + 1) (cf tb')" by (rule euclid_inv_degree[OF pf l(7)])
  have br: "2 * length b' \<le> ?R + 1" using l(6) by (simp add: degree_def)
  have bl: "bnd (max (length ta') (length a')) (cf ta')" "bnd (max (length ta') (length a')) (cf a')"
    using bnd_cf[of ta'] bnd_cf[of a'] by (auto elim: bnd_mono)
  obtain c where c: "c \<noteq> 0" "lam f (map fst es) = csm f c (cf tb')" "omg f es = csm f c (cf b')"
    using euclid_unique[OF pf d nz nu S A1 A2 B bt bnd_cf br bl] by blast
  have "gm f c (cf tb' 0) = g1"
    using lam_0[OF pf, of "map fst es"] unfolding c(2) by (simp add: csm_def)
  then have t0: "cf tb' 0 \<noteq> 0" and ci: "c = ginv f (cf tb' 0)"
    using ginv_unique[OF pf] by blast+
  have g0: "get_coefficient tb' 0 = Num (to_byte (cf tb' 0))" by (rule get_coefficient_0[OF l(5)])
  have g0nz: "get_coefficient tb' 0 \<noteq> Num 0" using t0 by (simp add: g0)
  have iv: "inverse_GF f (get_coefficient tb' 0) = Inr (Num (to_byte c))"
    unfolding g0 ci by (rule inverse_GF_ginv[OF pf t0])
  obtain sigma where sg: "multiply_scalar f tb' (to_byte c) = Inr sigma" "wfp sigma"
      "cf sigma = csm f (of_byte (to_byte c)) (cf tb')"
    using multiply_scalar_ok[OF pf l(5) byte_to_byte] by blast
  obtain omega where om: "multiply_scalar f b' (to_byte c) = Inr omega" "wfp omega"
      "cf omega = csm f (of_byte (to_byte c)) (cf b')"
    using multiply_scalar_ok[OF pf l(3) byte_to_byte] by blast
  have "run_euclidean_algorithm f ?a syndrome R = Some (Inr (sigma, omega))"
    unfolding run_euclidean_algorithm_def using ns g0nz
    by (simp add: l(1) Let_def iv sg(1) om(1))
  then show ?thesis using sg(2,3) om(2,3) c(2,3) by simp
qed

section \<open>The claims\<close>

text \<open>
  C2. For data of at least one byte (in 0..255) and at least one parity byte, on an
  encoder of a proper field, \<open>encode\<close> on the data followed by zeros returns without
  an error, \<open>decode\<close> of the buffer it leaves returns without an error and changes
  nothing, and the data region is the data. No bound on the length is needed for this.
\<close>

theorem C2_round_trip:
  assumes "wf_encoder enc" and "bytes d" and "1 \<le> length d" and "1 \<le> ec_bytes"
  shows "\<exists>enc' buffer.
           encode enc (d @ replicate (nat ec_bytes) 0) ec_bytes = Some (None, enc', buffer) \<and>
           decode (field_of enc) buffer ec_bytes = Some (None, buffer) \<and>
           take (length d) buffer = d"
proof -
  let ?f = "field_of enc"
  let ?data = "d @ replicate (nat ec_bytes) 0"
  let ?ec = "nat ec_bytes"
  let ?r = "encode_remainder ?f d ?ec"
  let ?buffer = "d @ replicate (?ec - length ?r) 0 @ ?r"
  have pf: "proper_GF256 ?f" using assms(1) by (simp add: wf_encoder_def)
  have dn: "d \<noteq> []" using assms(3) by auto
  have n: "nat (int (length ?data) - ec_bytes) = length d" using assms(4) by simp
  have t: "take (length d) ?data = d" by simp
  obtain enc' where e: "encode enc ?data ec_bytes = Some (None, enc', ?buffer)"
    using encode_ok[OF assms(1,4), of ?data] assms(2,3,4) unfolding n t by auto
  note er = encode_remainder_ok[OF pf dn assms(2), of ?ec]
  have ec: "0 < ?ec" using assms(4) by simp
  have bb: "bytes ?buffer" "?buffer \<noteq> []" using assms(2) er(2)[OF ec] dn by simp_all
  have "valid_codeword ?f ?buffer ec_bytes"
    using codeword_syndromes_zero[OF pf dn assms(2) ec]
    by (simp add: valid_codeword_iff[OF pf bb])
  then have "decode ?f ?buffer ec_bytes = Some (None, ?buffer)"
    using assms(4) by (auto simp: decode_def valid_codeword_def Let_def split: sum.splits)
  then show ?thesis using e by auto
qed

text \<open>
  C2 at a concrete input: the Data Matrix encoder on 142, 164, 186 with five parity bytes.
\<close>

theorem C2_round_trip_witness:
  "wf_encoder (new_RS_Encoder GF_DATA_MATRIX_256) \<and> bytes [142, 164, 186] \<and>
   1 \<le> length [142, 164, 186 :: int] \<and> (1::int) \<le> 5 \<and>
   (\<exists>enc' buffer.
      encode (new_RS_Encoder GF_DATA_MATRIX_256) ([142, 164, 186] @ replicate (nat 5) 0) 5
        = Some (None, enc', buffer) \<and>
      decode (field_of (new_RS_Encoder GF_DATA_MATRIX_256)) buffer 5 = Some (None, buffer) \<and>
      take (length [142, 164, 186 :: int]) buffer = [142, 164, 186])"
proof -
  have w: "wf_encoder (new_RS_Encoder GF_DATA_MATRIX_256)"
    by (rule wf_new_RS_Encoder[OF proper_GF_DATA_MATRIX_256])
  have b: "bytes [142, 164, 186]" by (simp add: byte_def)
  show ?thesis using w b C2_round_trip[OF w b, of 5] by simp
qed

text \<open>
  C3. With the Data Matrix field (primitive 0x012D, size 256, generator base 1),
  encoding the data 142, 164, 186 with five parity bytes raises nothing and leaves
  114, 25, 5, 88, 102 at positions 3 to 7 of the buffer, the data in front unchanged.
\<close>

theorem C3_data_matrix_known_answer:
  "map_option (\<lambda>(err, enc, buffer). (err, buffer))
     (encode (new_RS_Encoder GF_DATA_MATRIX_256) [142, 164, 186, 0, 0, 0, 0, 0] 5)
   = Some (None, [142, 164, 186, 114, 25, 5, 88, 102])"
  by code_simp

text \<open>
  C4. For a buffer and a parity length that \<open>encode\<close> accepts (at least one parity
  byte and at least one data byte, the data bytes in 0..255), on an encoder of a proper
  field whose cache holds the generators it has built, \<open>encode\<close> returns without an
  error, the buffer keeps its length and every byte of the data region is as before.
\<close>

theorem C4_encode_changes_parity_region_only:
  assumes "wf_encoder enc" and "1 \<le> ec_bytes" and "1 \<le> int (length data) - ec_bytes"
    and "bytes (take (nat (int (length data) - ec_bytes)) data)"
  shows "\<exists>enc' buffer. encode enc data ec_bytes = Some (None, enc', buffer) \<and>
           length buffer = length data \<and>
           take (nat (int (length data) - ec_bytes)) buffer
             = take (nat (int (length data) - ec_bytes)) data"
proof -
  obtain enc' parity where e: "encode enc data ec_bytes
        = Some (None, enc', take (nat (int (length data) - ec_bytes)) data @ parity)"
      "length parity = nat ec_bytes"
    using encode_ok[OF assms] by blast
  have l: "nat (int (length data) - ec_bytes) \<le> length data" using assms(2) by linarith
  have "length (take (nat (int (length data) - ec_bytes)) data @ parity) = length data"
    using e(2) assms(2,3) by simp
  moreover have "take (nat (int (length data) - ec_bytes))
                   (take (nat (int (length data) - ec_bytes)) data @ parity)
                 = take (nat (int (length data) - ec_bytes)) data"
    using l by simp
  ultimately show ?thesis using e(1) by blast
qed

text \<open>
  C4 at a concrete input: the Data Matrix encoder on 7, 8, 9, 10, 11 with two parity bytes.
\<close>

theorem C4_encode_changes_parity_region_only_witness:
  "wf_encoder (new_RS_Encoder GF_DATA_MATRIX_256) \<and> (1::int) \<le> 2 \<and>
   1 \<le> int (length [7, 8, 9, 10, 11 :: int]) - 2 \<and>
   bytes (take (nat (int (length [7, 8, 9, 10, 11 :: int]) - 2)) [7, 8, 9, 10, 11]) \<and>
   (\<exists>enc' buffer. encode (new_RS_Encoder GF_DATA_MATRIX_256) [7, 8, 9, 10, 11] 2
        = Some (None, enc', buffer) \<and>
      length buffer = length [7, 8, 9, 10, 11 :: int] \<and>
      take (nat (int (length [7, 8, 9, 10, 11 :: int]) - 2)) buffer
        = take (nat (int (length [7, 8, 9, 10, 11 :: int]) - 2)) [7, 8, 9, 10, 11])"
proof -
  have w: "wf_encoder (new_RS_Encoder GF_DATA_MATRIX_256)"
    by (rule wf_new_RS_Encoder[OF proper_GF_DATA_MATRIX_256])
  have b: "bytes (take (nat (int (length [7, 8, 9, 10, 11 :: int]) - 2)) [7, 8, 9, 10, 11])"
    by (simp add: byte_def)
  show ?thesis
    using w b C4_encode_changes_parity_region_only[OF w _ _ b] by simp
qed







text \<open>
  C8, as stated, fails: for all-zero data both fields give all-zero parity, so the
  parity regions are equal. Here one zero data byte and one parity byte.
\<close>

theorem C8_zero_data_counterexample:
  "map_option (\<lambda>(err, enc, buffer). (err, take 1 buffer, drop 1 buffer))
     (encode (new_RS_Encoder GF_DATA_MATRIX_256) [0, 0] 1) = Some (None, [0], [0]) \<and>
   map_option (\<lambda>(err, enc, buffer). (err, take 1 buffer, drop 1 buffer))
     (encode (new_RS_Encoder GF_QR_CODE_256) [0, 0] 1) = Some (None, [0], [0])"
  by code_simp

text \<open>
  C8, amended. For every buffer with at least one data byte (in 0..255) and at least one
  parity byte, encoding under the Data Matrix field and under the QR Code field both
  return without an error and leave identical data regions, the data as given. The parity
  regions need not differ: for all-zero data both are all zero. They do differ for the
  data 142, 164, 186 with five parity bytes.
\<close>

theorem C8_fields_agree_on_data_region:
  assumes "1 \<le> ec_bytes" and "1 \<le> int (length data) - ec_bytes"
    and "bytes (take (nat (int (length data) - ec_bytes)) data)"
  shows "(\<exists>enc1 enc2 parity1 parity2.
            encode (new_RS_Encoder GF_DATA_MATRIX_256) data ec_bytes
              = Some (None, enc1, take (nat (int (length data) - ec_bytes)) data @ parity1) \<and>
            encode (new_RS_Encoder GF_QR_CODE_256) data ec_bytes
              = Some (None, enc2, take (nat (int (length data) - ec_bytes)) data @ parity2) \<and>
            length parity1 = nat ec_bytes \<and> length parity2 = nat ec_bytes \<and>
            (take (nat (int (length data) - ec_bytes)) data
               = replicate (nat (int (length data) - ec_bytes)) 0 \<longrightarrow>
             parity1 = replicate (nat ec_bytes) 0 \<and> parity2 = replicate (nat ec_bytes) 0)) \<and>
         map_option (\<lambda>(err, enc, buffer). drop 3 buffer)
            (encode (new_RS_Encoder GF_DATA_MATRIX_256) [142, 164, 186, 0, 0, 0, 0, 0] 5)
         \<noteq> map_option (\<lambda>(err, enc, buffer). drop 3 buffer)
             (encode (new_RS_Encoder GF_QR_CODE_256) [142, 164, 186, 0, 0, 0, 0, 0] 5)"
proof -
  let ?n = "nat (int (length data) - ec_bytes)"
  have z: "replicate (nat ec_bytes - length (encode_remainder f (take ?n data) (nat ec_bytes))) 0
              @ encode_remainder f (take ?n data) (nat ec_bytes) = replicate (nat ec_bytes) 0"
    if "proper_GF256 f" "take ?n data = replicate ?n 0" for f
  proof -
    have "encode_remainder f (take ?n data) (nat ec_bytes) = [0]"
      using encode_remainder_zero[OF that(1), of ?n "nat ec_bytes"] assms(1,2) that(2) by simp
    moreover have "replicate (nat ec_bytes - 1) (0::int) @ [0] = replicate (nat ec_bytes) 0"
      using assms(1) by (cases "nat ec_bytes") (simp_all add: replicate_append_same)
    ultimately show ?thesis by simp
  qed
  have w1: "wf_encoder (new_RS_Encoder GF_DATA_MATRIX_256)"
    by (rule wf_new_RS_Encoder[OF proper_GF_DATA_MATRIX_256])
  have w2: "wf_encoder (new_RS_Encoder GF_QR_CODE_256)"
    by (rule wf_new_RS_Encoder[OF proper_GF_QR_CODE_256])
  have f1: "field_of (new_RS_Encoder GF_DATA_MATRIX_256) = GF_DATA_MATRIX_256"
    and f2: "field_of (new_RS_Encoder GF_QR_CODE_256) = GF_QR_CODE_256"
    by (simp_all add: new_RS_Encoder_def)
  obtain enc1 p1 where e1: "encode (new_RS_Encoder GF_DATA_MATRIX_256) data ec_bytes
        = Some (None, enc1, take ?n data @ p1)" "length p1 = nat ec_bytes"
      "take ?n data = replicate ?n 0 \<longrightarrow> p1 = replicate (nat ec_bytes) 0"
    using encode_ok[OF w1 assms] z[OF proper_GF_DATA_MATRIX_256] unfolding f1 by blast
  obtain enc2 p2 where e2: "encode (new_RS_Encoder GF_QR_CODE_256) data ec_bytes
        = Some (None, enc2, take ?n data @ p2)" "length p2 = nat ec_bytes"
      "take ?n data = replicate ?n 0 \<longrightarrow> p2 = replicate (nat ec_bytes) 0"
    using encode_ok[OF w2 assms] z[OF proper_GF_QR_CODE_256] unfolding f2 by blast
  show ?thesis using e1 e2 parity_differs_on_known_vector by blast
qed

text \<open>
  C8 (amended) at a concrete input: two zero data bytes and one parity byte.
\<close>

theorem C8_fields_agree_on_data_region_witness:
  "(1::int) \<le> 1 \<and> 1 \<le> int (length [0, 0, 0 :: int]) - 1 \<and>
   bytes (take (nat (int (length [0, 0, 0 :: int]) - 1)) [0, 0, 0]) \<and>
   (\<exists>enc1 enc2 parity1 parity2.
      encode (new_RS_Encoder GF_DATA_MATRIX_256) [0, 0, 0] 1
        = Some (None, enc1, take (nat (int (length [0, 0, 0 :: int]) - 1)) [0, 0, 0] @ parity1) \<and>
      encode (new_RS_Encoder GF_QR_CODE_256) [0, 0, 0] 1
        = Some (None, enc2, take (nat (int (length [0, 0, 0 :: int]) - 1)) [0, 0, 0] @ parity2) \<and>
      length parity1 = nat 1 \<and> length parity2 = nat 1 \<and>
      parity1 = replicate (nat 1) 0 \<and> parity2 = replicate (nat 1) 0)"
proof -
  have b: "bytes (take (nat (int (length [0, 0, 0 :: int]) - 1)) [0, 0, 0])"
    by (simp add: byte_def)
  have t: "take (nat (int (length [0, 0, 0 :: int]) - 1)) [0, 0, 0]
             = replicate (nat (int (length [0, 0, 0 :: int]) - 1)) 0"
    by (simp add: numeral_2_eq_2)
  show ?thesis
    using b t C8_fields_agree_on_data_region[OF _ _ b] by auto
qed



text \<open>
  C10. The buffer that \<open>encode\<close> leaves depends on the data region, the length and
  the parity length only: two buffers of the same length with the same data bytes (in
  0..255), whatever their parity regions hold, give the same outcome, and it is a normal
  return.
\<close>

theorem C10_parity_depends_on_data_only:
  assumes "wf_encoder enc" and "1 \<le> ec_bytes" and "1 \<le> int (length data) - ec_bytes"
    and "bytes (take (nat (int (length data) - ec_bytes)) data)"
    and "length data' = length data"
    and "take (nat (int (length data) - ec_bytes)) data'
           = take (nat (int (length data) - ec_bytes)) data"
  shows "encode enc data' ec_bytes = encode enc data ec_bytes \<and>
         (\<exists>enc' buffer. encode enc data ec_bytes = Some (None, enc', buffer))"
proof -
  let ?n = "nat (int (length data) - ec_bytes)"
  let ?r = "encode_remainder (field_of enc) (take ?n data) (nat ec_bytes)"
  have a: "encode enc data ec_bytes
             = Some (None, snd (build_generator enc ec_bytes),
                     take ?n data @ replicate (nat ec_bytes - length ?r) 0 @ ?r)"
    using encode_ok[OF assms(1-4)] by auto
  have b': "bytes (take (nat (int (length data') - ec_bytes)) data')" using assms(4,5,6) by simp
  have "encode enc data' ec_bytes
          = Some (None, snd (build_generator enc ec_bytes),
                  take ?n data @ replicate (nat ec_bytes - length ?r) 0 @ ?r)"
    using encode_ok[OF assms(1,2) _ b'] assms(3,5,6) by auto
  then show ?thesis using a by simp
qed

text \<open>
  C10 at a concrete input: the QR Code encoder on 7, 8, 9 followed by 200, 100 or by 0, 0.
\<close>

theorem C10_parity_depends_on_data_only_witness:
  "wf_encoder (new_RS_Encoder GF_QR_CODE_256) \<and> (1::int) \<le> 2 \<and>
   1 \<le> int (length [7, 8, 9, 0, 0 :: int]) - 2 \<and>
   bytes (take (nat (int (length [7, 8, 9, 0, 0 :: int]) - 2)) [7, 8, 9, 0, 0]) \<and>
   length [7, 8, 9, 200, 100 :: int] = length [7, 8, 9, 0, 0 :: int] \<and>
   take (nat (int (length [7, 8, 9, 0, 0 :: int]) - 2)) [7, 8, 9, 200, 100 :: int]
     = take (nat (int (length [7, 8, 9, 0, 0 :: int]) - 2)) [7, 8, 9, 0, 0] \<and>
   encode (new_RS_Encoder GF_QR_CODE_256) [7, 8, 9, 200, 100] 2
     = encode (new_RS_Encoder GF_QR_CODE_256) [7, 8, 9, 0, 0] 2 \<and>
   (\<exists>enc' buffer. encode (new_RS_Encoder GF_QR_CODE_256) [7, 8, 9, 0, 0] 2
        = Some (None, enc', buffer))"
proof -
  have w: "wf_encoder (new_RS_Encoder GF_QR_CODE_256)"
    by (rule wf_new_RS_Encoder[OF proper_GF_QR_CODE_256])
  have b: "bytes (take (nat (int (length [7, 8, 9, 0, 0 :: int]) - 2)) [7, 8, 9, 0, 0])"
    by (simp add: byte_def)
  show ?thesis
    using w b C10_parity_depends_on_data_only[where data' = "[7, 8, 9, 200, 100]", OF w _ _ b]
    by simp
qed

end
